theory Spec2Isabelle
  imports Main "HOL-Library.Word"
begin

unbundle bit_operations_syntax

section \<open>Bytes and strings\<close>

text \<open>
  A Go \<open>string\<close> is a sequence of bytes, and so is an Isabelle \<open>string\<close> (a list of
  8-bit characters). A Go \<open>[]byte\<close> is a list of 8-bit words. The conversion
  \<open>[]byte(s)\<close> keeps every byte.
\<close>

type_synonym byte = "8 word"

definition byte_of_char :: "char \<Rightarrow> byte" where
  "byte_of_char c = of_nat (of_char c)"

definition bytes_of_string :: "string \<Rightarrow> byte list" where
  "bytes_of_string s = map byte_of_char s"

section \<open>The errors of the package\<close>

datatype io_error = EOF | ErrUnexpectedEOF | OtherReadError string

datatype error =
    ErrInvalidHash
  | ErrInvalidComplexity
  | ErrInvalidArgon2Version
  | ErrMismatchedHashAndPassword
  | CorruptInputError nat
  | ReadError io_error

section \<open>The codec: \<open>encoding/base64\<close> over the crypt alphabet, unpadded\<close>

text \<open>
  \<open>var encoding = base64.NewEncoding("./ABC...789").WithPadding(base64.NoPadding)\<close>.
  The functions below are those of Go's \<open>encoding/base64\<close> for an encoding without
  padding character and with \<open>strict = false\<close> (the default, which the source does not
  change): \<open>Encode\<close> works on groups of three bytes through a 24-bit value, and
  \<open>decodeQuantum\<close> reads up to four characters, skipping carriage returns and line
  feeds, into a 24-bit value of which the whole bytes are kept. The library decodes runs
  of eight and of four valid characters at once and falls back to \<open>decodeQuantum\<close>;
  the bytes and the errors are those of \<open>decodeQuantum\<close> applied in turn, which is
  what \<open>decode\<close> does here. \<open>DecodeString\<close> returns the bytes decoded before an
  error together with the error; the package looks at the error only, so the model
  returns only the error then. The tests of the repository fix the behaviour on the
  segments they use (\<open>codec_known_values\<close> below).
\<close>

definition alphabet :: string where
  "alphabet = ''./ABCDEFGHIJKLMNOPQRSTUVWXYZabcdefghijklmnopqrstuvwxyz0123456789''"

text \<open>\<open>enc.encode[i]\<close>: the character of a 6-bit index.\<close>

definition encode_tab :: "64 word \<Rightarrow> char" where
  "encode_tab i = alphabet ! unat i"

text \<open>
  \<open>enc.decodeMap\<close>: 256 entries, \<open>0xFF\<close> everywhere, then
  \<open>decodeMap[encoder[i]] = uint8(i)\<close> for \<open>i\<close> from 0 to 63.
\<close>

definition decodeMap :: "char \<Rightarrow> byte" where
  "decodeMap = fold (\<lambda>i m. m(alphabet ! i := of_nat i)) [0..<length alphabet] (\<lambda>_. 0xFF)"

fun Encode :: "byte list \<Rightarrow> string" where
  "Encode [] = []"
| "Encode [a] =
     (let val = push_bit 16 (ucast a) :: 64 word
      in [encode_tab (drop_bit 18 val AND 0x3F), encode_tab (drop_bit 12 val AND 0x3F)])"
| "Encode [a, b] =
     (let val = push_bit 16 (ucast a) OR push_bit 8 (ucast b) :: 64 word
      in [encode_tab (drop_bit 18 val AND 0x3F), encode_tab (drop_bit 12 val AND 0x3F),
          encode_tab (drop_bit 6 val AND 0x3F)])"
| "Encode (a # b # c # rest) =
     (let val = push_bit 16 (ucast a) OR push_bit 8 (ucast b) OR ucast c :: 64 word
      in [encode_tab (drop_bit 18 val AND 0x3F), encode_tab (drop_bit 12 val AND 0x3F),
          encode_tab (drop_bit 6 val AND 0x3F), encode_tab (val AND 0x3F)]) @ Encode rest"

definition EncodeToString :: "byte list \<Rightarrow> string" where
  "EncodeToString src = Encode src"

text \<open>
  The reading loop of \<open>decodeQuantum\<close>: \<open>dbuf\<close> holds the \<open>j\<close> values read so far,
  \<open>src\<close> is the input from position \<open>si\<close> on. The result is the values read, the
  rest of the input and the new position.
\<close>

fun readQuantum :: "byte list \<Rightarrow> string \<Rightarrow> nat \<Rightarrow> error + (byte list \<times> string \<times> nat)" where
  "readQuantum dbuf src si =
     (if length dbuf \<ge> 4 then Inr (dbuf, src, si)
      else case src of
        [] \<Rightarrow> (if length dbuf = 1 then Inl (CorruptInputError (si - 1)) else Inr (dbuf, [], si))
      | c # cs \<Rightarrow>
          (if decodeMap c \<noteq> 0xFF then readQuantum (dbuf @ [decodeMap c]) cs (si + 1)
           else if c = CHR 0x0A \<or> c = CHR 0x0D then readQuantum dbuf cs (si + 1)
           else Inl (CorruptInputError si)))"

text \<open>
  \<open>decodeQuantum\<close>: the values read fill a zeroed \<open>[4]byte\<close>; of the 24-bit value,
  \<open>dlen - 1\<close> bytes are written.
\<close>

definition decodeQuantum :: "string \<Rightarrow> nat \<Rightarrow> error + (byte list \<times> string \<times> nat)" where
  "decodeQuantum src si =
     (case readQuantum [] src si of
        Inl e \<Rightarrow> Inl e
      | Inr (read, src', si') \<Rightarrow>
          (let dlen = length read;
               dbuf = read @ replicate (4 - dlen) 0;
               val = push_bit 18 (ucast (dbuf ! 0)) OR push_bit 12 (ucast (dbuf ! 1))
                     OR push_bit 6 (ucast (dbuf ! 2)) OR ucast (dbuf ! 3) :: 64 word;
               out = [ucast (drop_bit 16 val), ucast (drop_bit 8 val), ucast val] :: byte list
           in Inr (take (dlen - 1) out, src', si')))"

function decode :: "string \<Rightarrow> nat \<Rightarrow> error + byte list" where
  "decode src si =
     (if src = [] then Inr []
      else case decodeQuantum src si of
        Inl e \<Rightarrow> Inl e
      | Inr (out, src', si') \<Rightarrow>
          (case decode src' si' of Inl e \<Rightarrow> Inl e | Inr rest \<Rightarrow> Inr (out @ rest)))"
  by pat_completeness auto
termination
proof (relation "measure (\<lambda>(src, si). length src)", goal_cases)
  case 1
  show ?case by simp
next
  case (2 src0 si0 res out rest src1 si1)
  have shorter: "length src' < length src"
    if "readQuantum dbuf src si = Inr (read, src', si')" "length dbuf < 4" "src \<noteq> []"
    for dbuf src si read src' si'
    using that
  proof (induction dbuf src si rule: readQuantum.induct)
    case (1 dbuf src si)
    from "1.prems" obtain c cs where src: "src = c # cs" by (cases src) auto
    show ?case
    proof (cases "decodeMap c \<noteq> 0xFF")
      case True
      with "1.prems" src have r: "readQuantum (dbuf @ [decodeMap c]) cs (si + 1) = Inr (read, src', si')"
        by simp
      show ?thesis
      proof (cases "length (dbuf @ [decodeMap c]) < 4 \<and> cs \<noteq> []")
        case True
        with "1.IH"(1)[OF _ src _ r] \<open>decodeMap c \<noteq> 0xFF\<close> "1.prems" src show ?thesis by simp
      next
        case False
        with r src show ?thesis by (auto split: if_splits)
      qed
    next
      case False
      with "1.prems" src have nl: "c = CHR 0x0A \<or> c = CHR 0x0D"
        and r: "readQuantum dbuf cs (si + 1) = Inr (read, src', si')"
        by (auto split: if_splits)
      show ?thesis
      proof (cases "cs = []")
        case True
        with r src show ?thesis by (auto split: if_splits)
      next
        case False
        with "1.IH"(2)[OF _ src _ _ r] \<open>\<not> decodeMap c \<noteq> 0xFF\<close> nl "1.prems" src show ?thesis by simp
      qed
    qed
  qed
  from 2 obtain read where "readQuantum [] src0 si0 = Inr (read, src1, si1)"
    by (auto simp: decodeQuantum_def Let_def split: sum.splits prod.splits)
  from shorter[OF this _ \<open>src0 \<noteq> []\<close>]
  show ?case by simp
qed

definition DecodeString :: "string \<Rightarrow> error + byte list" where
  "DecodeString s = decode s 0"

text \<open>
  Two abbreviations for the proofs: the 24-bit value \<open>Encode\<close> builds from three
  bytes, and the one \<open>decodeQuantum\<close> builds from four 6-bit values.
\<close>

definition group3 :: "byte \<Rightarrow> byte \<Rightarrow> byte \<Rightarrow> 64 word" where
  "group3 a b c = push_bit 16 (ucast a) OR push_bit 8 (ucast b) OR ucast c"

definition assemble :: "byte \<Rightarrow> byte \<Rightarrow> byte \<Rightarrow> byte \<Rightarrow> 64 word" where
  "assemble d0 d1 d2 d3 =
     push_bit 18 (ucast d0) OR push_bit 12 (ucast d1) OR push_bit 6 (ucast d2) OR ucast d3"

text \<open>The three bytes that \<open>decodeQuantum\<close> makes of four characters of the alphabet.\<close>

definition quantum_bytes :: "char \<Rightarrow> char \<Rightarrow> char \<Rightarrow> char \<Rightarrow> byte list" where
  "quantum_bytes c0 c1 c2 c3 =
     (let v = assemble (decodeMap c0) (decodeMap c1) (decodeMap c2) (decodeMap c3)
      in [ucast (drop_bit 16 v), ucast (drop_bit 8 v), ucast v])"

text \<open>
  A text is canonical when the bits of its last character that belong to no whole byte
  are zero: the low four bits after \<open>4k + 2\<close> characters, the low two after
  \<open>4k + 3\<close>. The decoder, not being strict, does not look at these bits.
\<close>

definition canonical :: "string \<Rightarrow> bool" where
  "canonical s =
     (if length s mod 4 = 2 then take_bit 4 (decodeMap (last s)) = 0
      else if length s mod 4 = 3 then take_bit 2 (decodeMap (last s)) = 0
      else True)"

section \<open>The regular expression\<close>

text \<open>
  The fragment of Go's \<open>regexp\<close> syntax that \<open>rx\<close> is written in: the anchors
  \<open>^\<close> and \<open>$\<close> (without the multi-line flag: begin and end of the text), literal
  characters, and capture groups around a repeated character class, \<open>(cls{lo,hi})\<close>
  or \<open>(cls+)\<close>, which is \<open>(cls{1,})\<close>. A class is a list of ranges \<open>lo-hi\<close>.
\<close>

datatype node =
    BeginText
  | EndText
  | Literal string
  | Capture "(char \<times> char) list" nat "nat option"

definition in_class :: "(char \<times> char) list \<Rightarrow> char \<Rightarrow> bool" where
  "in_class cls c =
     list_ex (\<lambda>(lo, hi). (of_char lo :: nat) \<le> of_char c \<and> (of_char c :: nat) \<le> of_char hi) cls"

text \<open>
  Go's matching is leftmost-first: the match a backtracking engine finds, every
  repetition greedy. \<open>tryCounts k lo n\<close> tries the repetition counts \<open>n\<close>,
  \<open>n - 1\<close>, ... down to \<open>lo\<close> and takes the first at which the rest \<open>k\<close> matches.
\<close>

primrec tryCounts :: "(nat \<Rightarrow> 'a option) \<Rightarrow> nat \<Rightarrow> nat \<Rightarrow> 'a option" where
  "tryCounts k lo 0 = (if lo = 0 then k 0 else None)"
| "tryCounts k lo (Suc n) =
     (if Suc n < lo then None
      else case k (Suc n) of Some r \<Rightarrow> Some r | None \<Rightarrow> tryCounts k lo n)"

text \<open>
  \<open>matchHere ns bol s\<close>: match the nodes \<open>ns\<close> against a prefix of \<open>s\<close>;
  \<open>bol\<close> says that \<open>s\<close> begins at the beginning of the text. The result is the
  captured groups and the unmatched rest.
\<close>

fun matchHere :: "node list \<Rightarrow> bool \<Rightarrow> string \<Rightarrow> (string list \<times> string) option" where
  "matchHere [] bol s = Some ([], s)"
| "matchHere (BeginText # ns) bol s = (if bol then matchHere ns bol s else None)"
| "matchHere (EndText # ns) bol s = (if s = [] then matchHere ns bol s else None)"
| "matchHere (Literal l # ns) bol s =
     (if take (length l) s = l then matchHere ns (bol \<and> l = []) (drop (length l) s) else None)"
| "matchHere (Capture cls lo hi # ns) bol s =
     (let run = length (takeWhile (in_class cls) s);
          most = (case hi of None \<Rightarrow> run | Some h \<Rightarrow> min h run)
      in tryCounts
           (\<lambda>n. case matchHere ns (bol \<and> n = 0) (drop n s) of
                   None \<Rightarrow> None
                 | Some (caps, rest) \<Rightarrow> Some (take n s # caps, rest))
           lo most)"

text \<open>The leftmost match: try every start position in turn.\<close>

fun search :: "node list \<Rightarrow> bool \<Rightarrow> string \<Rightarrow> string list option" where
  "search ns bol s =
     (case matchHere ns bol s of
        Some (caps, rest) \<Rightarrow> Some (take (length s - length rest) s # caps)
      | None \<Rightarrow> (case s of [] \<Rightarrow> None | c # cs \<Rightarrow> search ns False cs))"

text \<open>
  \<open>FindStringSubmatch\<close> returns the text of the leftmost match followed by the text
  of each group, or nil (here \<open>None\<close>); \<open>MatchString\<close> says whether there is a match.
\<close>

definition FindStringSubmatch :: "node list \<Rightarrow> string \<Rightarrow> string list option" where
  "FindStringSubmatch re s = search re True s"

definition MatchString :: "node list \<Rightarrow> string \<Rightarrow> bool" where
  "MatchString re s = (FindStringSubmatch re s \<noteq> None)"

text \<open>
  \<^verbatim>\<open>^\$argon2id([0-9]{1,4})\$([0-9]{1,10}),([0-9]{1,10}),([0-9]{1,3})\$([./a-zA-Z0-9]+)\$([./a-zA-Z0-9]+)$\<close>
\<close>

definition rx :: "node list" where
  "rx =
    [BeginText, Literal ''$argon2id'',
     Capture [(CHR ''0'', CHR ''9'')] 1 (Some 4), Literal ''$'',
     Capture [(CHR ''0'', CHR ''9'')] 1 (Some 10), Literal '','',
     Capture [(CHR ''0'', CHR ''9'')] 1 (Some 10), Literal '','',
     Capture [(CHR ''0'', CHR ''9'')] 1 (Some 3), Literal ''$'',
     Capture [(CHR ''.'', CHR ''.''), (CHR ''/'', CHR ''/''), (CHR ''a'', CHR ''z''),
              (CHR ''A'', CHR ''Z''), (CHR ''0'', CHR ''9'')] 1 None,
     Literal ''$'',
     Capture [(CHR ''.'', CHR ''.''), (CHR ''/'', CHR ''/''), (CHR ''a'', CHR ''z''),
              (CHR ''A'', CHR ''Z''), (CHR ''0'', CHR ''9'')] 1 None,
     EndText]"

definition IsHashedPassword :: "string \<Rightarrow> bool" where
  "IsHashedPassword hashedPassword = MatchString rx hashedPassword"

section \<open>Decimal numbers: \<open>strconv.Atoi\<close> and the verb \<open>%d\<close>\<close>

datatype num_error = ErrSyntax | ErrRange

text \<open>
  The loop of \<open>Atoi\<close>'s fast path: \<open>ch -= '0'; if ch > 9 { return 0, syntaxError }\<close>
  on the byte \<open>ch\<close>, then \<open>n = n*10 + int(ch)\<close>.
\<close>

fun atoi_digits :: "string \<Rightarrow> int \<Rightarrow> int option" where
  "atoi_digits [] n = Some n"
| "atoi_digits (c # cs) n =
     (let ch = byte_of_char c - 0x30
      in if ch > 9 then None else atoi_digits cs (n * 10 + uint ch))"

text \<open>
  The loop of \<open>ParseUint(s, 10, 64)\<close>: a character that is not a decimal digit is a
  syntax error, a value beyond 64 bits is a range error with the value \<open>2^64 - 1\<close>.
\<close>

fun parseUint_digits :: "string \<Rightarrow> int \<Rightarrow> int \<times> num_error option" where
  "parseUint_digits [] n = (n, None)"
| "parseUint_digits (c # cs) n =
     (let ch = byte_of_char c - 0x30
      in if ch > 9 then (0, Some ErrSyntax)
         else if n \<ge> (2 ^ 64 - 1) div 10 + 1 then (2 ^ 64 - 1, Some ErrRange)
         else if n * 10 + uint ch > 2 ^ 64 - 1 then (2 ^ 64 - 1, Some ErrRange)
         else parseUint_digits cs (n * 10 + uint ch))"

definition ParseUint :: "string \<Rightarrow> int \<times> num_error option" where
  "ParseUint s = (if s = [] then (0, Some ErrSyntax) else parseUint_digits s 0)"

text \<open>\<open>ParseInt(s, 10, 0)\<close> with 64-bit \<open>int\<close>.\<close>

definition ParseInt :: "string \<Rightarrow> int \<times> num_error option" where
  "ParseInt s =
     (if s = [] then (0, Some ErrSyntax)
      else
        (let neg = (hd s = CHR ''-'');
             s' = (if hd s = CHR ''+'' \<or> hd s = CHR ''-'' then tl s else s);
             (un, err) = ParseUint s'
         in if err = Some ErrSyntax then (0, err)
            else if \<not> neg \<and> un \<ge> 2 ^ 63 then (2 ^ 63 - 1, Some ErrRange)
            else if neg \<and> un > 2 ^ 63 then (- (2 ^ 63), Some ErrRange)
            else (if neg then - un else un, None)))"

text \<open>
  \<open>strconv.Atoi\<close> on a platform with 64-bit \<open>int\<close> (the comparison of an \<open>int\<close>
  with \<open>math.MaxUint32\<close> in the source compiles on no other): between 1 and 18
  characters the fast path, otherwise \<open>ParseInt\<close>.
\<close>

definition Atoi :: "string \<Rightarrow> int \<times> num_error option" where
  "Atoi s =
     (if 0 < length s \<and> length s < 19 then
        (let s' = (if hd s = CHR ''-'' \<or> hd s = CHR ''+'' then tl s else s)
         in if s' = [] then (0, Some ErrSyntax)
            else case atoi_digits s' 0 of
              None \<Rightarrow> (0, Some ErrSyntax)
            | Some n \<Rightarrow> (if hd s = CHR ''-'' then - n else n, None))
      else ParseInt s)"

text \<open>The verb \<open>%d\<close> of \<open>fmt.Sprintf\<close>: the decimal digits, after a minus sign if negative.\<close>

function itoa :: "int \<Rightarrow> string" where
  "itoa n = (if n < 10 then [char_of (48 + n)] else itoa (n div 10) @ [char_of (48 + n mod 10)])"
  by pat_completeness auto
termination
  by (relation "measure nat") auto

definition Sprintf_d :: "int \<Rightarrow> string" where
  "Sprintf_d i = (if i < 0 then CHR ''-'' # itoa (- i) else itoa i)"

section \<open>\<open>crypto/subtle\<close>\<close>

text \<open>\<open>int((uint32(x^y) - 1) >> 31)\<close>\<close>

definition ConstantTimeByteEq :: "byte \<Rightarrow> byte \<Rightarrow> int" where
  "ConstantTimeByteEq x y = uint (drop_bit 31 ((ucast (x XOR y) :: 32 word) - 1))"

definition ConstantTimeCompare :: "byte list \<Rightarrow> byte list \<Rightarrow> int" where
  "ConstantTimeCompare x y =
     (if length x \<noteq> length y then 0
      else ConstantTimeByteEq (fold (\<lambda>(a, b) v. v OR (a XOR b)) (zip x y) 0) 0)"

section \<open>The package \<open>argon2id\<close>\<close>

text \<open>
  Modelled from the spec: the constant \<open>argon2.Version\<close> of
  \<open>golang.org/x/crypto/argon2\<close> is not part of the repository. It is the
  "compiled-in algorithm version"; the example record of the spec and the tests of
  the repository show it as \<open>19\<close> (\<open>0x13\<close>).
\<close>

definition Version :: int where
  "Version = 19"

text \<open>
  The derivation primitive \<open>argon2.IDKey(password, salt, time, memory, threads, keyLen)\<close>
  and the randomness source behind \<open>rand.Read\<close> are outside the repository. They are
  parameters of the functions that call them: a function from the six arguments to the
  derived bytes, and a function from the number of bytes asked for to the bytes or
  the error of the source.
\<close>

type_synonym idkey = "byte list \<Rightarrow> byte list \<Rightarrow> 32 word \<Rightarrow> 32 word \<Rightarrow> 8 word \<Rightarrow> 32 word \<Rightarrow> byte list"
type_synonym reader = "nat \<Rightarrow> io_error + byte list"

definition saltLen :: nat where
  "saltLen = 16"

record hashed =
  time :: "32 word"
  memory :: "32 word"
  threads :: "8 word"
  hash :: "byte list"
  salt :: "byte list"

definition defaultTime :: "32 word" where
  "defaultTime = 1"

definition defaultMemory :: "32 word" where
  "defaultMemory = 64 * 1024"

definition defaultThreads :: "8 word" where
  "defaultThreads = 4"

definition defaultKeyLen :: "32 word" where
  "defaultKeyLen = 32"

definition generateSalt :: "reader \<Rightarrow> error + byte list" where
  "generateSalt Reader =
     (case Reader saltLen of Inl err \<Rightarrow> Inl (ReadError err) | Inr salt' \<Rightarrow> Inr salt')"

text \<open>
  \<open>HashPassword\<close> returns \<open>("", err)\<close> or \<open>(text, nil)\<close>: here \<open>Inl err\<close> or
  \<open>Inr text\<close>.
\<close>

definition HashPassword ::
  "idkey \<Rightarrow> reader \<Rightarrow> string \<Rightarrow> 32 word \<Rightarrow> 32 word \<Rightarrow> 8 word \<Rightarrow> 32 word \<Rightarrow> error + string" where
  "HashPassword IDKey Reader password time0 memory0 threads0 keyLen0 =
     (let time' = (if time0 = 0 then defaultTime else time0);
          memory' = (if memory0 = 0 then defaultMemory else memory0);
          threads' = (if threads0 = 0 then defaultThreads else threads0);
          keyLen' = (if keyLen0 = 0 then defaultKeyLen else keyLen0)
      in case generateSalt Reader of
           Inl err \<Rightarrow> Inl err
         | Inr salt' \<Rightarrow>
             (let hash' = IDKey (bytes_of_string password) salt' time' memory' threads' keyLen'
              in Inr (''$argon2id'' @ Sprintf_d Version @ ''$'' @ Sprintf_d (uint time') @ '',''
                      @ Sprintf_d (uint memory') @ '','' @ Sprintf_d (uint threads') @ ''$''
                      @ EncodeToString salt' @ ''$'' @ EncodeToString hash')))"

definition DefaultHashPassword :: "idkey \<Rightarrow> reader \<Rightarrow> string \<Rightarrow> error + string" where
  "DefaultHashPassword IDKey Reader password = HashPassword IDKey Reader password 0 0 0 0"

definition newHashedFromHashedPassword :: "string \<Rightarrow> error + hashed" where
  "newHashedFromHashedPassword hashedPassword =
     (case FindStringSubmatch rx hashedPassword of
        None \<Rightarrow> Inl ErrInvalidHash
      | Some match \<Rightarrow>
          (let version = fst (Atoi (match ! 1));
               time' = fst (Atoi (match ! 2));
               memory' = fst (Atoi (match ! 3));
               threads' = fst (Atoi (match ! 4));
               salt' = match ! 5;
               hash' = match ! 6
           in if version \<noteq> Version then Inl ErrInvalidArgon2Version
              else case DecodeString hash' of
                Inl err \<Rightarrow> Inl err
              | Inr rawHash \<Rightarrow>
                  (case DecodeString salt' of
                     Inl err \<Rightarrow> Inl err
                   | Inr rawSalt \<Rightarrow>
                       if time' = 0 \<or> time' > 4294967295 \<or> memory' > 4294967295
                          \<or> threads' = 0 \<or> threads' > 255
                       then Inl ErrInvalidComplexity
                       else Inr \<lparr>time = word_of_int time', memory = word_of_int memory',
                                threads = word_of_int threads', hash = rawHash,
                                salt = rawSalt\<rparr>)))"

text \<open>\<open>Compare\<close> returns an \<open>error\<close>, \<open>nil\<close> on success: here \<open>None\<close>.\<close>

definition Compare :: "idkey \<Rightarrow> string \<Rightarrow> string \<Rightarrow> error option" where
  "Compare IDKey hashedPassword password =
     (case newHashedFromHashedPassword hashedPassword of
        Inl err \<Rightarrow> Some err
      | Inr h \<Rightarrow>
          (let compareHash = IDKey (bytes_of_string password) (salt h) (time h) (memory h)
                               (threads h) (word_of_nat (length (hash h)))
           in if ConstantTimeCompare (hash h) compareHash = 1 then None
              else Some ErrMismatchedHashAndPassword))"

section \<open>The record grammar, in the words of the specification\<close>

text \<open>
  The canonical layout is
  \<open>$argon2id<version>$<time>,<memory>,<threads>$<salt>$<hash>\<close>: the version has one
  to four decimal digits, time and memory one to ten, threads one to three, and salt and
  hash are non-empty texts of characters of the codec's alphabet.
\<close>

definition is_digit :: "char \<Rightarrow> bool" where
  "is_digit c = (c \<in> set ''0123456789'')"

text \<open>The number that a text of decimal digits denotes.\<close>

definition decimal :: "string \<Rightarrow> int" where
  "decimal ds = foldl (\<lambda>n c. 10 * n + (of_char c - 48)) 0 ds"

definition digit_string :: "nat \<Rightarrow> string \<Rightarrow> bool" where
  "digit_string k ds = (ds \<noteq> [] \<and> length ds \<le> k \<and> list_all is_digit ds)"

definition codec_string :: "string \<Rightarrow> bool" where
  "codec_string s = (s \<noteq> [] \<and> list_all (\<lambda>c. c \<in> set alphabet) s)"

definition record_text :: "string \<Rightarrow> string \<Rightarrow> string \<Rightarrow> string \<Rightarrow> string \<Rightarrow> string \<Rightarrow> string" where
  "record_text v t m p s h =
     ''$argon2id'' @ v @ ''$'' @ t @ '','' @ m @ '','' @ p @ ''$'' @ s @ ''$'' @ h"

definition record_fields :: "string \<Rightarrow> string \<Rightarrow> string \<Rightarrow> string \<Rightarrow> string \<Rightarrow> string \<Rightarrow> bool" where
  "record_fields v t m p s h =
     (digit_string 4 v \<and> digit_string 10 t \<and> digit_string 10 m \<and> digit_string 3 p
      \<and> codec_string s \<and> codec_string h)"

definition matches_grammar :: "string \<Rightarrow> bool" where
  "matches_grammar text =
     (\<exists>v t m p s h. text = record_text v t m p s h \<and> record_fields v t m p s h)"

text \<open>
  The complexity invariants of a record: \<open>time\<close> in \<open>[1, 2^32-1]\<close>, \<open>memory\<close> at most
  \<open>2^32-1\<close>, \<open>threads\<close> in \<open>[1, 255]\<close>. This is their violation.
\<close>

definition complexity_violated :: "int \<Rightarrow> int \<Rightarrow> int \<Rightarrow> bool" where
  "complexity_violated t m p = (t = 0 \<or> t > 2 ^ 32 - 1 \<or> m > 2 ^ 32 - 1 \<or> p = 0 \<or> p > 255)"

text \<open>
  The order of checks as the specification words it: grammar match, salt decode, hash
  decode, version check, complexity bounds. It is compared with
  \<open>newHashedFromHashedPassword\<close> below.
\<close>

definition parse_in_spec_order :: "string \<Rightarrow> error + hashed" where
  "parse_in_spec_order text =
     (case FindStringSubmatch rx text of
        None \<Rightarrow> Inl ErrInvalidHash
      | Some match \<Rightarrow>
          (case DecodeString (match ! 5) of
             Inl err \<Rightarrow> Inl err
           | Inr rawSalt \<Rightarrow>
               (case DecodeString (match ! 6) of
                  Inl err \<Rightarrow> Inl err
                | Inr rawHash \<Rightarrow>
                    if fst (Atoi (match ! 1)) \<noteq> Version then Inl ErrInvalidArgon2Version
                    else if complexity_violated (fst (Atoi (match ! 2))) (fst (Atoi (match ! 3)))
                              (fst (Atoi (match ! 4)))
                    then Inl ErrInvalidComplexity
                    else Inr \<lparr>time = word_of_int (fst (Atoi (match ! 2))),
                             memory = word_of_int (fst (Atoi (match ! 3))),
                             threads = word_of_int (fst (Atoi (match ! 4))),
                             hash = rawHash, salt = rawSalt\<rparr>)))"

section \<open>A stand-in for the primitive\<close>

text \<open>
  To run \<open>HashPassword\<close> and \<open>Compare\<close> on concrete inputs, a deterministic function
  with the interface of \<open>argon2.IDKey\<close>: \<open>keyLen\<close> bytes that depend on the password,
  the salt and the cost parameters. It is no key derivation function.
\<close>

definition stubKey :: idkey where
  "stubKey password salt' time' memory' threads' keyLen =
     take (unat keyLen)
       (password @ salt' @ replicate (unat keyLen) (ucast time' + ucast memory' + threads'))"

definition stubReader :: reader where
  "stubReader n = Inr (map of_nat [0..<n])"

definition emptyReader :: reader where
  "emptyReader n = Inl ErrUnexpectedEOF"

section \<open>The codec round trip\<close>

declare readQuantum.simps [simp del]
declare decode.simps [simp del]

lemma readQuantum_full: "length dbuf = 4 \<Longrightarrow> readQuantum dbuf src si = Inr (dbuf, src, si)"
  by (subst readQuantum.simps) simp

lemma readQuantum_Nil:
  "length dbuf < 4 \<Longrightarrow> readQuantum dbuf [] si =
     (if length dbuf = 1 then Inl (CorruptInputError (si - 1)) else Inr (dbuf, [], si))"
  by (subst readQuantum.simps) simp

lemma readQuantum_valid:
  "length dbuf < 4 \<Longrightarrow> decodeMap c \<noteq> 0xFF \<Longrightarrow>
   readQuantum dbuf (c # cs) si = readQuantum (dbuf @ [decodeMap c]) cs (Suc si)"
  by (subst readQuantum.simps) simp

lemma readQuantum_invalid:
  "length dbuf < 4 \<Longrightarrow> decodeMap c = 0xFF \<Longrightarrow>
   readQuantum dbuf (c # cs) si =
     (if c = CHR 0x0A \<or> c = CHR 0x0D then readQuantum dbuf cs (Suc si)
      else Inl (CorruptInputError si))"
  by (subst readQuantum.simps) simp

lemma decodeQuantum_4:
  assumes "decodeMap c0 \<noteq> 0xFF" "decodeMap c1 \<noteq> 0xFF" "decodeMap c2 \<noteq> 0xFF" "decodeMap c3 \<noteq> 0xFF"
  shows "decodeQuantum (c0 # c1 # c2 # c3 # rest) si =
    (let val = assemble (decodeMap c0) (decodeMap c1) (decodeMap c2) (decodeMap c3)
     in Inr ([ucast (drop_bit 16 val), ucast (drop_bit 8 val), ucast val], rest, si + 4))"
  using assms
  by (simp add: decodeQuantum_def readQuantum_valid readQuantum_full assemble_def Let_def)

lemma decodeQuantum_3:
  assumes "decodeMap c0 \<noteq> 0xFF" "decodeMap c1 \<noteq> 0xFF" "decodeMap c2 \<noteq> 0xFF"
  shows "decodeQuantum [c0, c1, c2] si =
    (let val = assemble (decodeMap c0) (decodeMap c1) (decodeMap c2) 0
     in Inr ([ucast (drop_bit 16 val), ucast (drop_bit 8 val)], [], si + 3))"
  using assms
  by (simp add: decodeQuantum_def readQuantum_valid readQuantum_Nil assemble_def Let_def)

lemma decodeQuantum_2:
  assumes "decodeMap c0 \<noteq> 0xFF" "decodeMap c1 \<noteq> 0xFF"
  shows "decodeQuantum [c0, c1] si =
    (let val = assemble (decodeMap c0) (decodeMap c1) 0 0
     in Inr ([ucast (drop_bit 16 val)], [], si + 2))"
  using assms
  by (simp add: decodeQuantum_def readQuantum_valid readQuantum_Nil assemble_def Let_def)

lemma decodeQuantum_1:
  assumes "decodeMap c0 \<noteq> 0xFF"
  shows "decodeQuantum [c0] si = Inl (CorruptInputError si)"
  using assms
  by (simp add: decodeQuantum_def readQuantum_valid readQuantum_Nil assemble_def Let_def)

subsection \<open>The 24-bit groups\<close>

lemma sextet_mask: "(x :: 64 word) AND 0x3F = take_bit 6 x"
proof -
  have "(0x3F :: 64 word) = mask 6" by (simp add: mask_eq_exp_minus_1)
  then show ?thesis by (simp add: take_bit_eq_mask)
qed

lemma take_bit_glue:
  "push_bit n (take_bit m (drop_bit n x)) OR take_bit n x = take_bit (n + m) (x :: 64 word)"
  by (rule bit_word_eqI) (auto simp add: bit_simps)

lemma ucast_sextet: "ucast (ucast (take_bit 6 (y :: 64 word)) :: byte) = take_bit 6 y"
  by (rule bit_word_eqI) (auto simp add: bit_simps)

lemma assemble_sextets:
  "assemble (ucast (take_bit 6 (drop_bit 18 v))) (ucast (take_bit 6 (drop_bit 12 v)))
            (ucast (take_bit 6 (drop_bit 6 v))) (ucast (take_bit 6 v)) = take_bit 24 v"
proof -
  have "push_bit 6 (take_bit 6 (drop_bit 6 v)) OR take_bit 6 v = take_bit 12 v"
    using take_bit_glue[of 6 6 v] by simp
  moreover have "push_bit 12 (take_bit 6 (drop_bit 12 v)) OR take_bit 12 v = take_bit 18 v"
    using take_bit_glue[of 12 6 v] by simp
  moreover have "push_bit 18 (take_bit 6 (drop_bit 18 v)) OR take_bit 18 v = take_bit 24 v"
    using take_bit_glue[of 18 6 v] by simp
  ultimately show ?thesis
    by (simp add: assemble_def ucast_sextet)
qed

lemma group3_24: "take_bit 24 (group3 a b c) = group3 a b c"
  unfolding group3_def
  by (rule bit_word_eqI) (auto simp add: bit_simps dest: bit_imp_le_length)

lemma group3_bytes:
  "ucast (drop_bit 16 (group3 a b c)) = a"
  "ucast (drop_bit 8 (group3 a b c)) = b"
  "ucast (group3 a b c) = c"
  unfolding group3_def
  by (rule bit_word_eqI; auto simp add: bit_simps dest: bit_imp_le_length)+

lemma group3_low:
  "take_bit 6 (group3 a b 0) = 0"
  "take_bit 6 (drop_bit 6 (group3 a 0 0)) = 0"
  unfolding group3_def
  by (rule bit_word_eqI; auto simp add: bit_simps dest: bit_imp_le_length)+

lemma group3_0: "group3 a b 0 = push_bit 16 (ucast a) OR push_bit 8 (ucast b)"
  "group3 a 0 0 = push_bit 16 (ucast a)"
  by (simp_all add: group3_def)

subsection \<open>The tables\<close>

lemma decodeMap_alphabet: "\<forall>n<64. decodeMap (alphabet ! n) = of_nat n"
  by code_simp

lemma sextet_lt: "unat (take_bit 6 (x :: 64 word)) < 64"
proof -
  have "take_bit 6 (unat x) < 2 ^ 6" by (rule take_bit_nat_less_exp)
  then show ?thesis by (simp add: unsigned_take_bit_eq)
qed

lemma decodeMap_encode_tab: "decodeMap (encode_tab (take_bit 6 x)) = ucast (take_bit 6 x)"
proof -
  have "decodeMap (alphabet ! unat (take_bit 6 x)) = of_nat (unat (take_bit 6 x))"
    using decodeMap_alphabet sextet_lt[of x] by blast
  then show ?thesis by (simp add: encode_tab_def)
qed

lemma sextet_byte_valid: "(ucast (take_bit 6 (x :: 64 word)) :: byte) \<noteq> 0xFF"
proof
  assume "(ucast (take_bit 6 x) :: byte) = 0xFF"
  then have "bit (ucast (take_bit 6 x) :: byte) 7 = bit (0xFF :: byte) 7"
    by simp
  then show False by (simp add: bit_simps)
qed

lemma encode_tab_valid: "decodeMap (encode_tab (take_bit 6 x)) \<noteq> 0xFF"
  by (simp add: decodeMap_encode_tab sextet_byte_valid)

lemma decode_Nil: "decode [] si = Inr []"
  by (subst decode.simps) simp

lemma Encode_3: "Encode (a # b # c # rest) =
   [encode_tab (take_bit 6 (drop_bit 18 (group3 a b c))), encode_tab (take_bit 6 (drop_bit 12 (group3 a b c))),
    encode_tab (take_bit 6 (drop_bit 6 (group3 a b c))), encode_tab (take_bit 6 (group3 a b c))] @ Encode rest"
  by (simp add: group3_def sextet_mask Let_def)

lemma Encode_2: "Encode [a, b] =
   [encode_tab (take_bit 6 (drop_bit 18 (group3 a b 0))), encode_tab (take_bit 6 (drop_bit 12 (group3 a b 0))),
    encode_tab (take_bit 6 (drop_bit 6 (group3 a b 0)))]"
  by (simp add: group3_def sextet_mask Let_def)

lemma Encode_1: "Encode [a] =
   [encode_tab (take_bit 6 (drop_bit 18 (group3 a 0 0))), encode_tab (take_bit 6 (drop_bit 12 (group3 a 0 0)))]"
  by (simp add: group3_def sextet_mask Let_def)

lemma decode_Encode: "decode (Encode src) si = Inr src"
proof (induction src arbitrary: si rule: Encode.induct)
  case 1
  show ?case by (simp add: decode_Nil)
next
  case (2 a)
  have "assemble (ucast (take_bit 6 (drop_bit 18 (group3 a 0 0))))
          (ucast (take_bit 6 (drop_bit 12 (group3 a 0 0)))) 0 0 = group3 a 0 0"
    using assemble_sextets[of "group3 a 0 0"] group3_low(2)[of a] group3_low(1)[of a 0]
    by (simp add: group3_24)
  then show ?case
    unfolding Encode_1
    by (subst decode.simps)
       (simp add: decodeQuantum_2 encode_tab_valid sextet_byte_valid decodeMap_encode_tab group3_bytes decode_Nil)
next
  case (3 a b)
  have "assemble (ucast (take_bit 6 (drop_bit 18 (group3 a b 0))))
          (ucast (take_bit 6 (drop_bit 12 (group3 a b 0))))
          (ucast (take_bit 6 (drop_bit 6 (group3 a b 0)))) 0 = group3 a b 0"
    using assemble_sextets[of "group3 a b 0"] group3_low(1)[of a b]
    by (simp add: group3_24)
  then show ?case
    unfolding Encode_2
    by (subst decode.simps)
       (simp add: decodeQuantum_3 encode_tab_valid sextet_byte_valid decodeMap_encode_tab group3_bytes decode_Nil)
next
  case (4 a b c rest)
  have "assemble (ucast (take_bit 6 (drop_bit 18 (group3 a b c))))
          (ucast (take_bit 6 (drop_bit 12 (group3 a b c))))
          (ucast (take_bit 6 (drop_bit 6 (group3 a b c))))
          (ucast (take_bit 6 (group3 a b c))) = group3 a b c"
    using assemble_sextets[of "group3 a b c"] by (simp add: group3_24)
  then show ?case
    unfolding Encode_3
    by (subst decode.simps)
       (simp add: decodeQuantum_4 encode_tab_valid sextet_byte_valid decodeMap_encode_tab group3_bytes "4.IH")
qed

text \<open>
  The decodings that the tests of the repository rely on: the one-character segment
  \<open>a\<close> is corrupt at position 0, and the known salt \<open>test.using.known.salt.\<close> is
  the encoding of its 16 decoded bytes.
\<close>

lemma codec_known_values:
  "DecodeString ''a'' = Inl (CorruptInputError 0)"
  "DecodeString ''test.using.known.salt.'' =
     Inr [190, 11, 175, 3, 11, 164, 166, 32, 38, 166, 172, 169, 2, 231, 39, 188]"
  "EncodeToString [190, 11, 175, 3, 11, 164, 166, 32, 38, 166, 172, 169, 2, 231, 39, 188] =
     ''test.using.known.salt.''"
  by code_simp+

text \<open>
  C6: for every byte sequence \<open>b\<close>, decoding the encoding of \<open>b\<close> succeeds and gives
  back exactly \<open>b\<close>.
\<close>

theorem codec_decode_encode: "DecodeString (EncodeToString b) = Inr b"
  by (simp add: DecodeString_def EncodeToString_def decode_Encode)

subsection \<open>From the text back to the bytes\<close>

lemma ucast_byte: "ucast (ucast (w :: 64 word) :: byte) = take_bit 8 w"
  by (rule bit_word_eqI) (auto simp add: bit_simps)

lemma group3_of_val:
  "group3 (ucast (drop_bit 16 v)) (ucast (drop_bit 8 v)) (ucast v) = take_bit 24 (v :: 64 word)"
  using take_bit_glue[of 8 8 v] take_bit_glue[of 16 8 v]
  by (simp add: group3_def ucast_byte)

lemma sextets_of_assemble:
  fixes e0 e1 e2 e3 :: byte
  defines "v \<equiv> assemble (take_bit 6 e0) (take_bit 6 e1) (take_bit 6 e2) (take_bit 6 e3)"
  shows "take_bit 6 (drop_bit 18 (take_bit 24 v)) = ucast (take_bit 6 e0)"
    and "take_bit 6 (drop_bit 12 (take_bit 24 v)) = ucast (take_bit 6 e1)"
    and "take_bit 6 (drop_bit 6 (take_bit 24 v)) = ucast (take_bit 6 e2)"
    and "take_bit 6 (take_bit 24 v) = ucast (take_bit 6 e3)"
  unfolding v_def assemble_def
     apply (rule bit_word_eqI)
  subgoal for n by (cases "n < 6"; simp add: bit_simps)
     apply (rule bit_word_eqI)
  subgoal for n by (cases "n < 6"; simp add: bit_simps)
     apply (rule bit_word_eqI)
  subgoal for n by (cases "n < 6"; simp add: bit_simps)
     apply (rule bit_word_eqI)
  subgoal for n by (cases "n < 6"; simp add: bit_simps)
  done

lemma sextets_of_tail3:
  fixes e0 e1 e2 :: byte
  defines "v \<equiv> assemble (take_bit 6 e0) (take_bit 6 e1) (take_bit 6 (push_bit 2 e2)) 0"
  defines "g \<equiv> group3 (ucast (drop_bit 16 v)) (ucast (drop_bit 8 v)) 0"
  shows "take_bit 6 (drop_bit 18 g) = ucast (take_bit 6 e0)"
    and "take_bit 6 (drop_bit 12 g) = ucast (take_bit 6 e1)"
    and "take_bit 6 (drop_bit 6 g) = ucast (take_bit 6 (push_bit 2 e2))"
  unfolding v_def g_def assemble_def group3_def
     apply (rule bit_word_eqI)
  subgoal for n by (cases "n < 6"; simp add: bit_simps)
     apply (rule bit_word_eqI)
  subgoal for n by (cases "n < 6"; cases "n < 4"; auto simp add: bit_simps)
     apply (rule bit_word_eqI)
  subgoal for n by (cases "n < 6"; cases "n < 2"; auto simp add: bit_simps)
  done

lemma sextets_of_tail2:
  fixes e0 e1 :: byte
  defines "v \<equiv> assemble (take_bit 6 e0) (take_bit 6 (push_bit 4 e1)) 0 0"
  defines "g \<equiv> group3 (ucast (drop_bit 16 v)) 0 0"
  shows "take_bit 6 (drop_bit 18 g) = ucast (take_bit 6 e0)"
    and "take_bit 6 (drop_bit 12 g) = ucast (take_bit 6 (push_bit 4 e1))"
  unfolding v_def g_def assemble_def group3_def
     apply (rule bit_word_eqI)
  subgoal for n by (cases "n < 6"; simp add: bit_simps)
     apply (rule bit_word_eqI)
  subgoal for n by (cases "n < 6"; cases "n < 4"; auto simp add: bit_simps)
  done

lemma low_bits_zero: "take_bit n (d :: byte) = 0 \<Longrightarrow> push_bit n (drop_bit n d) = d"
  using bits_ident[of n d] by simp

lemma alphabet_table:
  "list_all (\<lambda>c. encode_tab (ucast (decodeMap c)) = c \<and> take_bit 6 (decodeMap c) = decodeMap c) alphabet"
  by code_simp

lemma alphabet_encode_tab: "c \<in> set alphabet \<Longrightarrow> encode_tab (ucast (decodeMap c)) = c"
  using alphabet_table by (simp add: list_all_iff)

lemma alphabet_sextet: "c \<in> set alphabet \<Longrightarrow> take_bit 6 (decodeMap c) = decodeMap c"
  using alphabet_table by (simp add: list_all_iff)

lemma alphabet_valid: "c \<in> set alphabet \<Longrightarrow> decodeMap c \<noteq> 0xFF"
proof
  assume "c \<in> set alphabet" and "decodeMap c = 0xFF"
  then have "take_bit 6 (0xFF :: byte) = 0xFF" using alphabet_sextet[of c] by simp
  then show False by simp
qed


lemma list4_induct [case_names Nil One Two Three Four]:
  assumes "P []" "\<And>a. P [a]" "\<And>a b. P [a, b]" "\<And>a b c. P [a, b, c]"
    and "\<And>a b c d r. P r \<Longrightarrow> P (a # b # c # d # r)"
  shows "P xs"
  using assms by induction_schema (pat_completeness, lexicographic_order)

lemma decode_4:
  assumes "c0 \<in> set alphabet" "c1 \<in> set alphabet" "c2 \<in> set alphabet" "c3 \<in> set alphabet"
  shows "decode (c0 # c1 # c2 # c3 # rest) si =
    (case decode rest (si + 4) of Inl e \<Rightarrow> Inl e
     | Inr r \<Rightarrow> Inr (quantum_bytes c0 c1 c2 c3 @ r))"
  using assms
  by (subst decode.simps)
     (simp add: decodeQuantum_4 alphabet_valid Let_def quantum_bytes_def split: sum.splits)

lemma decode_3:
  assumes "c0 \<in> set alphabet" "c1 \<in> set alphabet" "c2 \<in> set alphabet"
  shows "decode [c0, c1, c2] si =
    (let v = assemble (decodeMap c0) (decodeMap c1) (decodeMap c2) 0
     in Inr [ucast (drop_bit 16 v), ucast (drop_bit 8 v)])"
  using assms
  by (subst decode.simps) (simp add: decodeQuantum_3 alphabet_valid Let_def decode_Nil)

lemma decode_2:
  assumes "c0 \<in> set alphabet" "c1 \<in> set alphabet"
  shows "decode [c0, c1] si =
    (let v = assemble (decodeMap c0) (decodeMap c1) 0 0 in Inr [ucast (drop_bit 16 v)])"
  using assms
  by (subst decode.simps) (simp add: decodeQuantum_2 alphabet_valid Let_def decode_Nil)

lemma decode_1:
  assumes "c0 \<in> set alphabet"
  shows "decode [c0] si = Inl (CorruptInputError si)"
  using assms
  by (subst decode.simps) (simp add: decodeQuantum_1 alphabet_valid)

lemma decode_alphabet_error:
  "list_all (\<lambda>c. c \<in> set alphabet) s \<Longrightarrow> length s mod 4 = 1 \<Longrightarrow>
   decode s si = Inl (CorruptInputError (si + length s - 1))"
proof (induction s arbitrary: si rule: list4_induct)
  case (One a)
  then show ?case by (simp add: decode_1)
next
  case (Four a b c d r)
  then show ?case by (simp add: decode_4)
qed simp_all

lemma decode_alphabet_ok:
  "list_all (\<lambda>c. c \<in> set alphabet) s \<Longrightarrow> length s mod 4 \<noteq> 1 \<Longrightarrow> \<exists>b. decode s si = Inr b"
proof (induction s arbitrary: si rule: list4_induct)
  case (Four a b c d r)
  from Four.IH[of "si + 4"] Four.prems obtain b' where "decode r (si + 4) = Inr b'" by auto
  with Four.prems show ?case by (simp add: decode_4)
qed (simp_all add: decode_Nil decode_2 decode_3 Let_def)

lemma canonical_4: "canonical (c0 # c1 # c2 # c3 # r) = canonical r"
proof (cases "r = []")
  case True
  then show ?thesis by (simp add: canonical_def)
next
  case False
  have "(n + 4) mod 4 = n mod 4" for n :: nat by simp
  from this[of "length r"] have len: "length (c0 # c1 # c2 # c3 # r) mod 4 = length r mod 4"
    by simp
  have lst: "last (c0 # c1 # c2 # c3 # r) = last r"
    using False by simp
  show ?thesis unfolding canonical_def len lst ..
qed

lemma Encode_quantum_bytes:
  assumes "c0 \<in> set alphabet" "c1 \<in> set alphabet" "c2 \<in> set alphabet" "c3 \<in> set alphabet"
  shows "Encode (quantum_bytes c0 c1 c2 c3 @ bs) = c0 # c1 # c2 # c3 # Encode bs"
proof -
  have "Encode (quantum_bytes c0 c1 c2 c3 @ bs) =
        [encode_tab (ucast (take_bit 6 (decodeMap c0))), encode_tab (ucast (take_bit 6 (decodeMap c1))),
         encode_tab (ucast (take_bit 6 (decodeMap c2))), encode_tab (ucast (take_bit 6 (decodeMap c3)))]
        @ Encode bs"
    using sextets_of_assemble[of "decodeMap c0" "decodeMap c1" "decodeMap c2" "decodeMap c3"] assms
    by (simp add: quantum_bytes_def Let_def Encode_3 group3_of_val alphabet_sextet del: Encode.simps)
  with assms show ?thesis by (simp add: alphabet_sextet alphabet_encode_tab)
qed

lemma Encode_decode:
  "list_all (\<lambda>c. c \<in> set alphabet) s \<Longrightarrow> canonical s \<Longrightarrow> decode s si = Inr b \<Longrightarrow> Encode b = s"
proof (induction s arbitrary: si b rule: list4_induct)
  case Nil
  then show ?case by (simp add: decode_Nil)
next
  case (One a)
  then show ?case by (simp add: decode_1)
next
  case (Two c0 c1)
  then have low: "take_bit 4 (decodeMap c1) = 0" by (simp add: canonical_def)
  have d1: "decodeMap c1 = take_bit 6 (push_bit 4 (drop_bit 4 (decodeMap c1)))"
    using low_bits_zero[OF low] Two.prems(1) by (simp add: alphabet_sextet)
  have d0: "decodeMap c0 = take_bit 6 (decodeMap c0)"
    using Two.prems(1) by (simp add: alphabet_sextet)
  from Two.prems have b: "b = [ucast (drop_bit 16 (assemble (decodeMap c0) (decodeMap c1) 0 0))]"
    by (simp add: decode_2 Let_def)
  have "Encode b = [encode_tab (ucast (decodeMap c0)), encode_tab (ucast (decodeMap c1))]"
    unfolding b Encode_1
    using sextets_of_tail2[of "decodeMap c0" "drop_bit 4 (decodeMap c1)"] d0 d1 by simp
  with Two.prems(1) show ?case by (simp add: alphabet_encode_tab)
next
  case (Three c0 c1 c2)
  then have low: "take_bit 2 (decodeMap c2) = 0" by (simp add: canonical_def)
  have d2: "decodeMap c2 = take_bit 6 (push_bit 2 (drop_bit 2 (decodeMap c2)))"
    using low_bits_zero[OF low] Three.prems(1) by (simp add: alphabet_sextet)
  have d0: "decodeMap c0 = take_bit 6 (decodeMap c0)" and d1: "decodeMap c1 = take_bit 6 (decodeMap c1)"
    using Three.prems(1) by (simp_all add: alphabet_sextet)
  let ?v = "assemble (decodeMap c0) (decodeMap c1) (decodeMap c2) 0"
  from Three.prems have b: "b = [ucast (drop_bit 16 ?v), ucast (drop_bit 8 ?v)]"
    by (simp add: decode_3 Let_def)
  have "Encode b = [encode_tab (ucast (decodeMap c0)), encode_tab (ucast (decodeMap c1)),
                    encode_tab (ucast (decodeMap c2))]"
    unfolding b Encode_2
    using sextets_of_tail3[of "decodeMap c0" "decodeMap c1" "drop_bit 2 (decodeMap c2)"] d0 d1 d2
    by simp
  with Three.prems(1) show ?case by (simp add: alphabet_encode_tab)
next
  case (Four c0 c1 c2 c3 r)
  from Four.prems obtain b' where r: "decode r (si + 4) = Inr b'"
    and b: "b = quantum_bytes c0 c1 c2 c3 @ b'"
    by (auto simp add: decode_4 split: sum.splits)
  from Four.IH[OF _ _ r] Four.prems(2)[unfolded canonical_4] Four.prems(1) have "Encode b' = r" by simp
  with Four.prems(1) show ?case unfolding b by (simp add: Encode_quantum_bytes del: Encode.simps)
qed


lemma tail_low_bits:
  fixes a b :: byte
  shows "take_bit 4 (ucast (take_bit 6 (drop_bit 12 (group3 a 0 0))) :: byte) = 0"
    and "take_bit 2 (ucast (take_bit 6 (drop_bit 6 (group3 a b 0))) :: byte) = 0"
  unfolding group3_def
  by (rule bit_word_eqI; auto simp add: bit_simps)+

lemma canonical_Encode: "canonical (Encode b)"
proof (induction b rule: Encode.induct)
  case (2 a)
  show ?case unfolding Encode_1 by (simp add: canonical_def decodeMap_encode_tab tail_low_bits)
next
  case (3 a b)
  show ?case unfolding Encode_2 by (simp add: canonical_def decodeMap_encode_tab tail_low_bits)
next
  case (4 a b c rest)
  then show ?case unfolding Encode_3 by (simp add: canonical_4)
qed (simp add: canonical_def)

text \<open>
  C7, as amended: for every text \<open>s\<close> of characters of the alphabet that decodes without
  error, to \<open>b\<close>, the encoding of \<open>b\<close> is \<open>s\<close> again exactly when \<open>s\<close> is
  canonical, that is when the bits of its last character that belong to no whole byte
  are zero.
\<close>

theorem codec_encode_decode_canonical:
  assumes "list_all (\<lambda>c. c \<in> set alphabet) s" and "DecodeString s = Inr b"
  shows "EncodeToString b = s \<longleftrightarrow> canonical s"
proof
  assume "EncodeToString b = s"
  then show "canonical s" using canonical_Encode[of b] by (simp add: EncodeToString_def)
next
  assume "canonical s"
  with assms show "EncodeToString b = s"
    by (simp add: EncodeToString_def DecodeString_def Encode_decode)
qed

theorem codec_encode_decode_canonical_witness:
  "list_all (\<lambda>c. c \<in> set alphabet) ''Ab.'' \<and> DecodeString ''Ab.'' = Inr [9, 208]
   \<and> canonical ''Ab.'' \<and> EncodeToString [9, 208] = ''Ab.''"
proof -
  have h1: "list_all (\<lambda>c. c \<in> set alphabet) ''Ab.''" by code_simp
  have h2: "DecodeString ''Ab.'' = Inr [9, 208]" by code_simp
  have h3: "canonical ''Ab.''" by code_simp
  from codec_encode_decode_canonical[OF h1 h2] h1 h2 h3 show ?thesis by simp
qed

text \<open>
  The claim as stated fails: \<open>./\<close> decodes without error, to the one byte \<open>0\<close>
  (the low four bits of \<open>/\<close> are dropped), and that byte encodes as \<open>..\<close>.
\<close>

theorem codec_encode_decode_counterexample:
  "DecodeString ''./'' = Inr [0] \<and> EncodeToString [0] \<noteq> ''./''"
  by code_simp

section \<open>The regular expression and the grammar\<close>

lemma tryCounts_None:
  "(\<And>n. lo \<le> n \<Longrightarrow> n \<le> m \<Longrightarrow> k n = None) \<Longrightarrow> tryCounts k lo m = None"
  by (induction m) auto

lemma tryCounts_only:
  assumes "\<And>n. n < m \<Longrightarrow> k n = None"
  shows "tryCounts k lo m = (if lo \<le> m then k m else None)"
proof (cases m)
  case 0
  then show ?thesis by simp
next
  case (Suc m')
  have "tryCounts k lo m' = None"
    using assms Suc by (intro tryCounts_None) simp
  then show ?thesis using Suc by (auto split: option.splits)
qed

lemma takeWhile_nth_holds: "n < length (takeWhile P s) \<Longrightarrow> P (s ! n) \<and> n < length s"
proof -
  assume n: "n < length (takeWhile P s)"
  then have "takeWhile P s ! n \<in> set (takeWhile P s)" by simp
  then have "P (takeWhile P s ! n)" by (rule set_takeWhileD[THEN conjunct2])
  moreover have "takeWhile P s ! n = s ! n" using n by (rule takeWhile_nth)
  moreover have "length (takeWhile P s) \<le> length s" by (rule length_takeWhile_le)
  ultimately show ?thesis using n by simp
qed

lemma matchHere_Capture_greedy:
  assumes fails: "\<And>n b. n < length (takeWhile (in_class cls) s) \<Longrightarrow> matchHere ns b (drop n s) = None"
  shows "matchHere (Capture cls lo hi # ns) bol s =
     (let w = takeWhile (in_class cls) s
      in if lo \<le> length w \<and> (case hi of None \<Rightarrow> True | Some h \<Rightarrow> length w \<le> h)
         then (case matchHere ns (bol \<and> w = []) (dropWhile (in_class cls) s) of
                 None \<Rightarrow> None
               | Some (caps, rest) \<Rightarrow> Some (w # caps, rest))
         else None)"
proof -
  let ?P = "in_class cls"
  let ?run = "length (takeWhile ?P s)"
  let ?k = "\<lambda>n. case matchHere ns (bol \<and> n = 0) (drop n s) of
                   None \<Rightarrow> None
                 | Some (caps, rest) \<Rightarrow> Some (take n s # caps, rest)"
  have tk: "take ?run s = takeWhile ?P s" by (simp add: takeWhile_eq_take[symmetric])
  have dr: "drop ?run s = dropWhile ?P s" by (simp add: dropWhile_eq_drop[symmetric])
  have kn: "?k n = None" if "n < ?run" for n using fails[OF that] by simp
  show ?thesis
  proof (cases hi)
    case None
    then have "matchHere (Capture cls lo hi # ns) bol s = tryCounts ?k lo ?run"
      by (simp add: Let_def)
    also have "\<dots> = (if lo \<le> ?run then ?k ?run else None)"
      using kn by (rule tryCounts_only)
    finally show ?thesis using None by (simp add: Let_def tk dr split: option.splits)
  next
    case (Some h)
    then have m: "matchHere (Capture cls lo hi # ns) bol s = tryCounts ?k lo (min h ?run)"
      by (simp add: Let_def)
    show ?thesis
    proof (cases "?run \<le> h")
      case True
      then have "min h ?run = ?run" by simp
      with m have "matchHere (Capture cls lo hi # ns) bol s = tryCounts ?k lo ?run" by simp
      also have "\<dots> = (if lo \<le> ?run then ?k ?run else None)"
        using kn by (rule tryCounts_only)
      finally show ?thesis using Some True by (simp add: Let_def tk dr split: option.splits)
    next
      case False
      then have "tryCounts ?k lo (min h ?run) = None"
        by (intro tryCounts_None kn) simp
      with m Some False show ?thesis by (simp add: Let_def)
    qed
  qed
qed

lemma Literal_fails_in_run:
  assumes "n < length (takeWhile P s)" and "\<not> P c"
  shows "matchHere (Literal (c # l) # ns) b (drop n s) = None"
proof -
  from takeWhile_nth_holds[OF assms(1)] have "P (s ! n)" and n: "n < length s" by simp_all
  from n have "drop n s = s ! n # drop (Suc n) s" by (simp add: Cons_nth_drop_Suc)
  moreover from \<open>P (s ! n)\<close> assms(2) have "s ! n \<noteq> c" by auto
  ultimately show ?thesis by simp
qed

lemma EndText_fails_in_run:
  assumes "n < length (takeWhile P s)"
  shows "matchHere (EndText # ns) b (drop n s) = None"
proof -
  from takeWhile_nth_holds[OF assms(1)] have "n < length s" by simp
  then show ?thesis by simp
qed


declare matchHere.simps(5) [simp del]

lemma matchHere_Literal_iff:
  "matchHere (Literal l # ns) bol s = Some (caps, rest) \<longleftrightarrow>
     (\<exists>r. s = l @ r \<and> matchHere ns (bol \<and> l = []) r = Some (caps, rest))"
proof
  assume m: "matchHere (Literal l # ns) bol s = Some (caps, rest)"
  then have t: "take (length l) s = l" by (simp split: if_splits)
  then have "s = l @ drop (length l) s" by (metis append_take_drop_id)
  moreover from m t have "matchHere ns (bol \<and> l = []) (drop (length l) s) = Some (caps, rest)"
    by simp
  ultimately show "\<exists>r. s = l @ r \<and> matchHere ns (bol \<and> l = []) r = Some (caps, rest)"
    by blast
next
  assume "\<exists>r. s = l @ r \<and> matchHere ns (bol \<and> l = []) r = Some (caps, rest)"
  then show "matchHere (Literal l # ns) bol s = Some (caps, rest)" by auto
qed

lemma takeWhile_field:
  assumes "list_all P w" and "\<not> P c"
  shows "takeWhile P (w @ c # r) = w" and "dropWhile P (w @ c # r) = c # r"
  using assms by (simp_all add: list_all_iff takeWhile_append2 dropWhile_append2)

lemma matchHere_Capture_Literal_iff:
  assumes c: "\<not> in_class cls c"
  shows "matchHere (Capture cls lo hi # Literal (c # l) # ns) bol s = Some (caps, rest) \<longleftrightarrow>
    (\<exists>w r caps'. s = w @ c # l @ r \<and> list_all (in_class cls) w \<and> lo \<le> length w
       \<and> (case hi of None \<Rightarrow> True | Some h \<Rightarrow> length w \<le> h)
       \<and> matchHere ns False r = Some (caps', rest) \<and> caps = w # caps')"
    (is "?L \<longleftrightarrow> ?R")
proof -
  let ?P = "in_class cls"
  have greedy: "matchHere (Capture cls lo hi # Literal (c # l) # ns) bol s =
     (let w = takeWhile ?P s
      in if lo \<le> length w \<and> (case hi of None \<Rightarrow> True | Some h \<Rightarrow> length w \<le> h)
         then (case matchHere (Literal (c # l) # ns) (bol \<and> w = []) (dropWhile ?P s) of
                 None \<Rightarrow> None
               | Some (caps, rest) \<Rightarrow> Some (w # caps, rest))
         else None)"
    by (rule matchHere_Capture_greedy) (rule Literal_fails_in_run[where P = ?P, OF _ c])
  show ?thesis
  proof
    assume ?L
    then have b: "lo \<le> length (takeWhile ?P s)"
        "case hi of None \<Rightarrow> True | Some h \<Rightarrow> length (takeWhile ?P s) \<le> h"
      and "\<exists>caps'. matchHere (Literal (c # l) # ns) (bol \<and> takeWhile ?P s = []) (dropWhile ?P s)
              = Some (caps', rest) \<and> caps = takeWhile ?P s # caps'"
      unfolding greedy by (auto simp add: Let_def split: if_splits option.splits)
    then obtain caps' r where d: "dropWhile ?P s = (c # l) @ r"
      and m: "matchHere ns False r = Some (caps', rest)" and caps: "caps = takeWhile ?P s # caps'"
      unfolding matchHere_Literal_iff by auto
    have "s = takeWhile ?P s @ c # l @ r"
      using takeWhile_dropWhile_id[of ?P s] d by simp
    moreover have "list_all ?P (takeWhile ?P s)"
      by (auto simp add: list_all_iff dest: set_takeWhileD)
    ultimately show ?R using b m caps by blast
  next
    assume ?R
    then obtain w r caps' where s: "s = w @ c # l @ r" and w: "list_all ?P w" and lo: "lo \<le> length w"
      and hi: "case hi of None \<Rightarrow> True | Some h \<Rightarrow> length w \<le> h"
      and m: "matchHere ns False r = Some (caps', rest)" and caps: "caps = w # caps'"
      by blast
    have tw: "takeWhile ?P s = w" and dw: "dropWhile ?P s = c # l @ r"
      unfolding s using takeWhile_field[OF w c] by simp_all
    show ?L unfolding greedy using lo hi m caps by (simp add: Let_def tw dw)
  qed
qed

lemma matchHere_Capture_EndText_iff:
  "matchHere [Capture cls lo hi, EndText] bol s = Some (caps, rest) \<longleftrightarrow>
    (list_all (in_class cls) s \<and> lo \<le> length s
       \<and> (case hi of None \<Rightarrow> True | Some h \<Rightarrow> length s \<le> h)
       \<and> caps = [s] \<and> rest = [])"
    (is "?L \<longleftrightarrow> ?R")
proof -
  let ?P = "in_class cls"
  have greedy: "matchHere [Capture cls lo hi, EndText] bol s =
     (let w = takeWhile ?P s
      in if lo \<le> length w \<and> (case hi of None \<Rightarrow> True | Some h \<Rightarrow> length w \<le> h)
         then (case matchHere [EndText] (bol \<and> w = []) (dropWhile ?P s) of
                 None \<Rightarrow> None
               | Some (caps, rest) \<Rightarrow> Some (w # caps, rest))
         else None)"
    by (rule matchHere_Capture_greedy) (rule EndText_fails_in_run[where P = ?P])
  show ?thesis
  proof
    assume ?L
    then have b: "lo \<le> length (takeWhile ?P s)"
        "case hi of None \<Rightarrow> True | Some h \<Rightarrow> length (takeWhile ?P s) \<le> h"
      and d: "dropWhile ?P s = []" and caps: "caps = [takeWhile ?P s]" and rest: "rest = []"
      unfolding greedy by (auto simp add: Let_def split: if_splits option.splits)
    from d have all: "list_all ?P s" by (simp add: list_all_iff)
    then have tw: "takeWhile ?P s = s" by (simp add: list_all_iff)
    from b[unfolded tw] all caps[unfolded tw] rest show ?R by simp
  next
    assume ?R
    then have all: "list_all ?P s" by simp
    then have tw: "takeWhile ?P s = s" and dw: "dropWhile ?P s = []"
      by (simp_all add: list_all_iff)
    from \<open>?R\<close> show ?L unfolding greedy by (simp add: Let_def tw dw)
  qed
qed

lemma class_digit: "\<forall>c. in_class [(CHR ''0'', CHR ''9'')] c = is_digit c"
  by code_simp

lemma class_alphabet:
  "\<forall>c. in_class [(CHR ''.'', CHR ''.''), (CHR ''/'', CHR ''/''), (CHR ''a'', CHR ''z''),
                 (CHR ''A'', CHR ''Z''), (CHR ''0'', CHR ''9'')] c = (c \<in> set alphabet)"
  by code_simp

lemma separators:
  "\<not> in_class [(CHR ''0'', CHR ''9'')] CHR ''$''"
  "\<not> in_class [(CHR ''0'', CHR ''9'')] CHR '',''"
  "\<not> in_class [(CHR ''.'', CHR ''.''), (CHR ''/'', CHR ''/''), (CHR ''a'', CHR ''z''),
                 (CHR ''A'', CHR ''Z''), (CHR ''0'', CHR ''9'')] CHR ''$''"
  by code_simp+


lemma one_le_length: "Suc 0 \<le> length w \<longleftrightarrow> w \<noteq> []"
  by (cases w) simp_all

lemma class_digit_eq: "in_class [(CHR ''0'', CHR ''9'')] = is_digit"
  using class_digit by (intro ext) simp

lemma class_alphabet_eq:
  "in_class [(CHR ''.'', CHR ''.''), (CHR ''/'', CHR ''/''), (CHR ''a'', CHR ''z''),
             (CHR ''A'', CHR ''Z''), (CHR ''0'', CHR ''9'')] = (\<lambda>c. c \<in> set alphabet)"
  using class_alphabet by (intro ext) simp

lemma rx_match_iff:
  "matchHere rx True text = Some (caps, rest) \<longleftrightarrow>
     (\<exists>v t m p s h. text = record_text v t m p s h \<and> record_fields v t m p s h
        \<and> caps = [v, t, m, p, s, h] \<and> rest = [])"
  unfolding rx_def
  apply (simp only: matchHere.simps(2) if_True matchHere_Literal_iff
      matchHere_Capture_Literal_iff[OF separators(1)] matchHere_Capture_Literal_iff[OF separators(2)]
      matchHere_Capture_Literal_iff[OF separators(3)] matchHere_Capture_EndText_iff)
  apply (simp add: class_digit_eq class_alphabet_eq one_le_length
     record_text_def record_fields_def digit_string_def codec_string_def)
  apply auto
  done


declare search.simps [simp del]

lemma search_BeginText_False: "search (BeginText # ns) False s = None"
  by (induction s) (simp_all add: search.simps[of _ False])

lemma FindStringSubmatch_rx:
  "FindStringSubmatch rx text =
     (case matchHere rx True text of
        None \<Rightarrow> None
      | Some (caps, rest) \<Rightarrow> Some (take (length text - length rest) text # caps))"
proof -
  have "rx = BeginText # tl rx" by (simp add: rx_def)
  then have later: "search rx False s = None" for s
    using search_BeginText_False[of "tl rx" s] by simp
  show ?thesis
    unfolding FindStringSubmatch_def
    by (subst search.simps) (simp add: later split: option.splits list.splits)
qed

lemma FindStringSubmatch_record:
  assumes "record_fields v t m p s h"
  shows "FindStringSubmatch rx (record_text v t m p s h) =
           Some [record_text v t m p s h, v, t, m, p, s, h]"
proof -
  from assms have "matchHere rx True (record_text v t m p s h) = Some ([v, t, m, p, s, h], [])"
    unfolding rx_match_iff by blast
  then show ?thesis by (simp add: FindStringSubmatch_rx)
qed

lemma FindStringSubmatch_None: "FindStringSubmatch rx text = None \<longleftrightarrow> \<not> matches_grammar text"
proof
  assume n: "FindStringSubmatch rx text = None"
  show "\<not> matches_grammar text"
  proof
    assume "matches_grammar text"
    then obtain v t m p s h where "text = record_text v t m p s h" "record_fields v t m p s h"
      unfolding matches_grammar_def by blast
    with FindStringSubmatch_record[of v t m p s h] n show False by simp
  qed
next
  assume g: "\<not> matches_grammar text"
  show "FindStringSubmatch rx text = None"
  proof (cases "matchHere rx True text")
    case None
    then show ?thesis by (simp add: FindStringSubmatch_rx)
  next
    case (Some r)
    then obtain caps rest where "matchHere rx True text = Some (caps, rest)" by (cases r) simp
    then have "matches_grammar text" unfolding rx_match_iff matches_grammar_def by blast
    with g show ?thesis by simp
  qed
qed

text \<open>
  C9: \<open>IsHashedPassword\<close> is true exactly of the texts of the grammar
  \<open>$argon2id<version>$<time>,<memory>,<threads>$<salt>$<hash>\<close>, with one to four digits
  of version, one to ten of time and of memory, one to three of threads, and non-empty
  salt and hash of characters of the alphabet. It is a total function to the booleans
  and it neither decodes the segments nor looks at the numbers.
\<close>

theorem IsHashedPassword_grammar: "IsHashedPassword text \<longleftrightarrow> matches_grammar text"
  by (simp add: IsHashedPassword_def MatchString_def FindStringSubmatch_None)

theorem IsHashedPassword_grammar_witness:
  "IsHashedPassword ''$argon2id19$1,65536,4$a$J2fO'' \<and> matches_grammar ''$argon2id19$1,65536,4$a$J2fO''
   \<and> \<not> IsHashedPassword ''$argon2id,2,32768,2$bad'' \<and> \<not> matches_grammar ''$argon2id,2,32768,2$bad''"
proof -
  have "IsHashedPassword ''$argon2id19$1,65536,4$a$J2fO''" by code_simp
  moreover have "\<not> IsHashedPassword ''$argon2id,2,32768,2$bad''" by code_simp
  ultimately show ?thesis
    using IsHashedPassword_grammar[of "''$argon2id19$1,65536,4$a$J2fO''"]
      IsHashedPassword_grammar[of "''$argon2id,2,32768,2$bad''"]
    by simp
qed

section \<open>Decimal numbers\<close>

lemma is_digit_cases:
  "is_digit c \<longleftrightarrow> c = CHR ''0'' \<or> c = CHR ''1'' \<or> c = CHR ''2'' \<or> c = CHR ''3'' \<or> c = CHR ''4''
     \<or> c = CHR ''5'' \<or> c = CHR ''6'' \<or> c = CHR ''7'' \<or> c = CHR ''8'' \<or> c = CHR ''9''"
  by (simp add: is_digit_def)

lemma digit_byte:
  assumes "is_digit c"
  shows "\<not> byte_of_char c - 0x30 > 9" and "uint (byte_of_char c - 0x30) = of_char c - 48"
    and "c \<noteq> CHR ''-''" and "c \<noteq> CHR ''+''"
  using assms unfolding is_digit_cases by (auto simp add: byte_of_char_def)

lemma atoi_digits_decimal:
  "list_all is_digit ds \<Longrightarrow>
   atoi_digits ds n = Some (foldl (\<lambda>n c. 10 * n + (of_char c - 48)) n ds)"
  by (induction ds arbitrary: n) (simp_all add: digit_byte Let_def mult.commute)

lemma Atoi_digit_string:
  assumes "digit_string k ds" and "k \<le> 18"
  shows "Atoi ds = (decimal ds, None)"
proof -
  from assms have ne: "ds \<noteq> []" and len: "length ds < 19" and all: "list_all is_digit ds"
    by (simp_all add: digit_string_def)
  from ne all have "is_digit (hd ds)" by (cases ds) simp_all
  then have "hd ds \<noteq> CHR ''-''" "hd ds \<noteq> CHR ''+''" by (simp_all add: digit_byte)
  with ne len show ?thesis
    by (simp add: Atoi_def atoi_digits_decimal[OF all] decimal_def)
qed

lemma decimal_snoc: "decimal (ds @ [c]) = 10 * decimal ds + (of_char c - 48)"
  by (simp add: decimal_def)

lemma small_digit_chars:
  "char_of (48 :: int) = CHR ''0''" "char_of (49 :: int) = CHR ''1''" "char_of (50 :: int) = CHR ''2''"
  "char_of (51 :: int) = CHR ''3''" "char_of (52 :: int) = CHR ''4''" "char_of (53 :: int) = CHR ''5''"
  "char_of (54 :: int) = CHR ''6''" "char_of (55 :: int) = CHR ''7''" "char_of (56 :: int) = CHR ''8''"
  "char_of (57 :: int) = CHR ''9''"
  by (simp_all add: char_of_def)

lemma small_digit:
  assumes "0 \<le> d" and "d < 10"
  shows "is_digit (char_of (48 + d :: int))" and "of_char (char_of (48 + d :: int)) - 48 = d"
proof -
  from assms have "d = 0 \<or> d = 1 \<or> d = 2 \<or> d = 3 \<or> d = 4 \<or> d = 5 \<or> d = 6 \<or> d = 7 \<or> d = 8 \<or> d = 9"
    by arith
  then show "is_digit (char_of (48 + d :: int))"
    by (auto simp add: is_digit_def small_digit_chars)
  from assms show "of_char (char_of (48 + d :: int)) - 48 = d"
    by simp
qed

declare itoa.simps [simp del]

lemma itoa_digits: "0 \<le> n \<Longrightarrow> list_all is_digit (itoa n) \<and> itoa n \<noteq> [] \<and> decimal (itoa n) = n"
proof (induction n rule: itoa.induct)
  case (1 n)
  show ?case
  proof (cases "n < 10")
    case True
    with "1.prems" small_digit[of n] show ?thesis
      by (subst (1 2 3) itoa.simps) (simp add: decimal_def)
  next
    case False
    with "1.prems" have "0 \<le> n div 10" by simp
    with "1.IH"[OF False] have ih: "list_all is_digit (itoa (n div 10))" "decimal (itoa (n div 10)) = n div 10"
      by simp_all
    have d: "0 \<le> n mod 10" "n mod 10 < 10" by simp_all
    from False ih small_digit[OF d] show ?thesis
      by (subst (1 2 3) itoa.simps) (simp add: decimal_snoc)
  qed
qed

lemma itoa_length: "0 \<le> n \<Longrightarrow> n < 10 ^ k \<Longrightarrow> 0 < k \<Longrightarrow> length (itoa n) \<le> k"
proof (induction n arbitrary: k rule: itoa.induct)
  case (1 n)
  show ?case
  proof (cases "n < 10")
    case True
    with "1.prems" show ?thesis by (subst itoa.simps) simp
  next
    case False
    from "1.prems" obtain k' where k: "k = Suc k'" by (cases k) auto
    from False "1.prems" k have "0 < k'" by (cases k') auto
    moreover have "n div 10 < x" if "n < 10 * x" for x using that by arith
    with "1.prems" k have "n div 10 < 10 ^ k'" by simp
    moreover from "1.prems" have "0 \<le> n div 10" by simp
    ultimately have "length (itoa (n div 10)) \<le> k'" using "1.IH"[OF False] by simp
    with False k show ?thesis by (subst itoa.simps) simp
  qed
qed

lemma Sprintf_d_digit_string:
  assumes "0 \<le> n" and "n < 10 ^ k" and "0 < k"
  shows "digit_string k (Sprintf_d n)" and "decimal (Sprintf_d n) = n"
  using assms itoa_digits[of n] itoa_length[of n k]
  by (simp_all add: Sprintf_d_def digit_string_def)

section \<open>Parsing a record\<close>

lemma newHashed_record:
  assumes "record_fields v t m p s h"
  shows "newHashedFromHashedPassword (record_text v t m p s h) =
    (if decimal v \<noteq> Version then Inl ErrInvalidArgon2Version
     else case DecodeString h of
       Inl err \<Rightarrow> Inl err
     | Inr rawHash \<Rightarrow>
         (case DecodeString s of
            Inl err \<Rightarrow> Inl err
          | Inr rawSalt \<Rightarrow>
              if complexity_violated (decimal t) (decimal m) (decimal p)
              then Inl ErrInvalidComplexity
              else Inr \<lparr>time = word_of_int (decimal t), memory = word_of_int (decimal m),
                       threads = word_of_int (decimal p), hash = rawHash, salt = rawSalt\<rparr>))"
proof -
  from assms have "Atoi v = (decimal v, None)" "Atoi t = (decimal t, None)"
      "Atoi m = (decimal m, None)" "Atoi p = (decimal p, None)"
    by (auto simp add: record_fields_def intro: Atoi_digit_string)
  with assms show ?thesis
    by (simp add: newHashedFromHashedPassword_def FindStringSubmatch_record Let_def
        complexity_violated_def split: sum.splits)
qed

lemma newHashed_no_match:
  "\<not> matches_grammar text \<Longrightarrow> newHashedFromHashedPassword text = Inl ErrInvalidHash"
  by (simp add: newHashedFromHashedPassword_def FindStringSubmatch_None[symmetric])

text \<open>
  C3, as amended: the checks of the parse are made in the order grammar match, version
  check, hash decode, salt decode, complexity bounds, and the first that fails gives the
  error: a text outside the grammar gives \<open>ErrInvalidHash\<close>; a record of the grammar
  gives \<open>ErrInvalidArgon2Version\<close> if its version is not the compiled-in one, whatever
  its segments and numbers; otherwise the decode error of the hash if there is one;
  otherwise that of the salt; otherwise \<open>ErrInvalidComplexity\<close> if a bound is
  violated; otherwise the parameters.
\<close>

theorem parse_order:
  "(\<not> matches_grammar text \<longrightarrow> newHashedFromHashedPassword text = Inl ErrInvalidHash)
   \<and> (record_fields v t m p s h \<longrightarrow>
        newHashedFromHashedPassword (record_text v t m p s h) =
          (if decimal v \<noteq> Version then Inl ErrInvalidArgon2Version
           else case DecodeString h of
             Inl err \<Rightarrow> Inl err
           | Inr rawHash \<Rightarrow>
               (case DecodeString s of
                  Inl err \<Rightarrow> Inl err
                | Inr rawSalt \<Rightarrow>
                    if complexity_violated (decimal t) (decimal m) (decimal p)
                    then Inl ErrInvalidComplexity
                    else Inr \<lparr>time = word_of_int (decimal t),
                             memory = word_of_int (decimal m),
                             threads = word_of_int (decimal p),
                             hash = rawHash, salt = rawSalt\<rparr>)))"
  using newHashed_record newHashed_no_match by blast

theorem parse_order_witness:
  "\<not> matches_grammar ''bad-hash''
   \<and> newHashedFromHashedPassword ''bad-hash'' = Inl ErrInvalidHash
   \<and> record_fields ''19'' ''1'' ''65536'' ''4'' ''a'' ''abcde''
   \<and> newHashedFromHashedPassword (record_text ''19'' ''1'' ''65536'' ''4'' ''a'' ''abcde'')
       = Inl (CorruptInputError 4)"
proof -
  have "FindStringSubmatch rx ''bad-hash'' = None" by code_simp
  then have h1: "\<not> matches_grammar ''bad-hash''" by (simp add: FindStringSubmatch_None)
  have h2: "record_fields ''19'' ''1'' ''65536'' ''4'' ''a'' ''abcde''" by code_simp
  have e: "decimal ''19'' = Version" "DecodeString ''abcde'' = Inl (CorruptInputError 4)"
    by code_simp+
  from parse_order[of "''bad-hash''" "''19''" "''1''" "''65536''" "''4''" "''a''" "''abcde''"] h1 h2
  show ?thesis by (simp add: e)
qed

text \<open>
  The claim as stated fails. In \<open>$argon2id99$1,1,1$a$ab\<close> the salt does not decode
  and the version is foreign: the order of the specification gives the decode error, the
  code \<open>ErrInvalidArgon2Version\<close>. In \<open>$argon2id19$1,1,1$a$abcde\<close> neither segment
  decodes: the order of the specification gives the error of the salt, at position 0,
  the code that of the hash, at position 4.
\<close>

theorem parse_order_counterexample:
  "record_text ''99'' ''1'' ''1'' ''1'' ''a'' ''ab'' = ''$argon2id99$1,1,1$a$ab''
   \<and> record_text ''19'' ''1'' ''1'' ''1'' ''a'' ''abcde'' = ''$argon2id19$1,1,1$a$abcde''
   \<and> DecodeString ''a'' = Inl (CorruptInputError 0)
   \<and> DecodeString ''abcde'' = Inl (CorruptInputError 4)
   \<and> parse_in_spec_order ''$argon2id99$1,1,1$a$ab'' = Inl (CorruptInputError 0)
   \<and> newHashedFromHashedPassword ''$argon2id99$1,1,1$a$ab'' = Inl ErrInvalidArgon2Version
   \<and> parse_in_spec_order ''$argon2id19$1,1,1$a$abcde'' = Inl (CorruptInputError 0)
   \<and> newHashedFromHashedPassword ''$argon2id19$1,1,1$a$abcde'' = Inl (CorruptInputError 4)"
  by code_simp

text \<open>
  C4: for a record of the grammar whose version is the compiled-in one and whose salt
  and hash decode, the parse gives \<open>ErrInvalidComplexity\<close> exactly when time is 0 or
  above \<open>2^32-1\<close>, or memory is above \<open>2^32-1\<close>, or threads is 0 or above 255. A
  record with memory 0 and time and threads in range parses, into parameters with
  memory 0.
\<close>

theorem parse_complexity:
  assumes "record_fields v t m p s h" and "decimal v = Version"
    and "DecodeString s = Inr rawSalt" and "DecodeString h = Inr rawHash"
  shows "(newHashedFromHashedPassword (record_text v t m p s h) = Inl ErrInvalidComplexity
            \<longleftrightarrow> decimal t = 0 \<or> decimal t > 2 ^ 32 - 1 \<or> decimal m > 2 ^ 32 - 1
                \<or> decimal p = 0 \<or> decimal p > 255)
     \<and> (decimal m = 0 \<and> 1 \<le> decimal t \<and> decimal t \<le> 2 ^ 32 - 1
          \<and> 1 \<le> decimal p \<and> decimal p \<le> 255 \<longrightarrow>
        newHashedFromHashedPassword (record_text v t m p s h) =
          Inr \<lparr>time = word_of_int (decimal t), memory = 0, threads = word_of_int (decimal p),
                hash = rawHash, salt = rawSalt\<rparr>)"
  using assms by (auto simp add: newHashed_record complexity_violated_def)

theorem parse_complexity_witness:
  "record_fields ''19'' ''3'' ''0'' ''255'' ''ab'' ''abc'' \<and> decimal ''19'' = Version
   \<and> DecodeString ''ab'' = Inr [113] \<and> DecodeString ''abc'' = Inr [113, 215]
   \<and> decimal ''0'' = 0 \<and> decimal ''3'' = 3 \<and> decimal ''255'' = 255
   \<and> newHashedFromHashedPassword ''$argon2id19$3,0,255$ab$abc'' =
        Inr \<lparr>time = 3, memory = 0, threads = 255, hash = [113, 215], salt = [113]\<rparr>
   \<and> newHashedFromHashedPassword ''$argon2id19$3,0,255$ab$abc'' \<noteq> Inl ErrInvalidComplexity"
proof -
  have h1: "record_fields ''19'' ''3'' ''0'' ''255'' ''ab'' ''abc''" by code_simp
  have h2: "decimal ''19'' = Version" by code_simp
  have h3: "DecodeString ''ab'' = Inr [113]" by code_simp
  have h4: "DecodeString ''abc'' = Inr [113, 215]" by code_simp
  have d: "decimal ''0'' = 0" "decimal ''3'' = 3" "decimal ''255'' = 255" by code_simp+
  have r: "record_text ''19'' ''3'' ''0'' ''255'' ''ab'' ''abc'' = ''$argon2id19$3,0,255$ab$abc''"
    by (simp add: record_text_def)
  from parse_complexity[OF h1 h2 h3 h4] h1 h2 h3 h4 d show ?thesis
    by (simp add: r)
qed


section \<open>Comparing\<close>

lemma xor_zero_iff: "(a :: byte) XOR b = 0 \<longleftrightarrow> a = b"
proof
  assume "a XOR b = 0"
  then have "a XOR (a XOR b) = a" by simp
  then show "a = b" by (simp add: xor.assoc[symmetric])
qed simp

lemma fold_or_xor_zero:
  "fold (\<lambda>(a, b) v. v OR (a XOR b)) ps (v0 :: byte) = 0 \<longleftrightarrow> v0 = 0 \<and> list_all (\<lambda>(a, b). a = b) ps"
proof (induction ps arbitrary: v0)
  case Nil
  show ?case by simp
next
  case (Cons q ps)
  obtain a b where q: "q = (a, b)" by (cases q)
  have "fold (\<lambda>(a, b) v. v OR (a XOR b)) (q # ps) v0 = fold (\<lambda>(a, b) v. v OR (a XOR b)) ps (v0 OR (a XOR b))"
    by (simp add: q)
  then show ?case
    by (simp only: Cons.IH or_eq_0_iff xor_zero_iff q list.pred_inject split conj_assoc)
qed

lemma ConstantTimeByteEq_zero: "ConstantTimeByteEq v 0 = (if v = 0 then 1 else 0)"
proof (cases "v = 0")
  case True
  then show ?thesis by (simp add: ConstantTimeByteEq_def)
next
  case False
  let ?w = "ucast v :: 32 word"
  have uv: "unat ?w = unat v" by (simp add: unsigned_ucast_eq take_bit_nat_eq_self unsigned_less[THEN order_less_le_trans])
  from False have "unat v \<noteq> 0" by (simp add: unat_eq_0)
  with uv have "?w \<noteq> 0" by (metis unat_eq_0)
  then have "unat (?w - 1) = unat ?w - 1" by (rule unat_minus_one)
  moreover have "unat v < 256" by (rule order_less_le_trans[OF unsigned_less]) simp
  ultimately have "unat (?w - 1) < 2 ^ 31" using uv by simp
  then have "drop_bit 31 (unat (?w - 1)) = 0"
    by (simp add: drop_bit_eq_div)
  then have "unat (drop_bit 31 (?w - 1)) = 0"
    by (simp only: unat_drop_bit_eq)
  then have "drop_bit 31 (?w - 1) = 0" by (simp add: unat_eq_0)
  with False show ?thesis by (simp add: ConstantTimeByteEq_def)
qed

lemma ConstantTimeCompare_eq: "ConstantTimeCompare x y = 1 \<longleftrightarrow> x = y"
proof (cases "length x = length y")
  case False
  then show ?thesis by (auto simp add: ConstantTimeCompare_def)
next
  case True
  then have "list_all (\<lambda>(a, b). a = b) (zip x y) \<longleftrightarrow> x = y"
    by (induction x y rule: list_induct2) simp_all
  with True show ?thesis
    by (simp add: ConstantTimeCompare_def ConstantTimeByteEq_zero fold_or_xor_zero)
qed

lemma Compare_parsed:
  "newHashedFromHashedPassword text = Inr h \<Longrightarrow>
   Compare IDKey text password =
     (if IDKey (bytes_of_string password) (salt h) (time h) (memory h) (threads h)
           (word_of_nat (length (hash h))) = hash h
      then None else Some ErrMismatchedHashAndPassword)"
  by (auto simp add: Compare_def Let_def ConstantTimeCompare_eq)

lemma Compare_unparsed:
  "newHashedFromHashedPassword text = Inl err \<Longrightarrow> Compare IDKey text password = Some err"
  by (simp add: Compare_def)

text \<open>
  C2: when the text parses, \<open>Compare\<close> calls the primitive with the salt, time, memory
  and threads of the record and with the length of the embedded hash as key length (as
  a \<open>uint32\<close>), gives success exactly when the derived bytes are those of the embedded
  hash, and \<open>ErrMismatchedHashAndPassword\<close> otherwise; when the text does not parse,
  \<open>Compare\<close> gives the error of the parse.
\<close>

theorem Compare_result:
  "(newHashedFromHashedPassword text = Inl err \<longrightarrow> Compare IDKey text password = Some err)
   \<and> (newHashedFromHashedPassword text = Inr h \<longrightarrow>
        Compare IDKey text password =
          (if IDKey (bytes_of_string password) (salt h) (time h) (memory h) (threads h)
                (word_of_nat (length (hash h))) = hash h
           then None else Some ErrMismatchedHashAndPassword))
   \<and> (length (hash h) < 2 ^ 32 \<longrightarrow>
        unat (word_of_nat (length (hash h)) :: 32 word) = length (hash h))"
proof -
  have "unat (word_of_nat n :: 32 word) = n" if "n < 2 ^ 32" for n
    using that by (simp add: unat_of_nat)
  then show ?thesis using Compare_parsed Compare_unparsed by blast
qed

theorem Compare_result_witness:
  "newHashedFromHashedPassword ''bad-hash'' = Inl ErrInvalidHash
   \<and> Compare stubKey ''bad-hash'' ''yes'' = Some ErrInvalidHash
   \<and> newHashedFromHashedPassword ''$argon2id19$1,1,1$ab$cd'' =
        Inr \<lparr>time = 1, memory = 1, threads = 1, hash = [121], salt = [113]\<rparr>
   \<and> Compare stubKey ''$argon2id19$1,1,1$ab$cd'' ''yes'' = None
   \<and> Compare stubKey ''$argon2id19$1,1,1$ab$cd'' ''no'' = Some ErrMismatchedHashAndPassword"
proof -
  have h1: "newHashedFromHashedPassword ''bad-hash'' = Inl ErrInvalidHash" by code_simp
  have h2: "newHashedFromHashedPassword ''$argon2id19$1,1,1$ab$cd'' =
        Inr \<lparr>time = 1, memory = 1, threads = 1, hash = [121], salt = [113]\<rparr>" by code_simp
  have k: "stubKey (bytes_of_string ''yes'') [113] 1 1 1 1 = [121]"
    "stubKey (bytes_of_string ''no'') [113] 1 1 1 1 = [110]" by code_simp+
  from Compare_result[of "''bad-hash''" ErrInvalidHash stubKey "''yes''"] h1
    Compare_result[of "''$argon2id19$1,1,1$ab$cd''" _ stubKey "''yes''",
      THEN conjunct2, THEN conjunct1, rule_format, OF h2]
    Compare_result[of "''$argon2id19$1,1,1$ab$cd''" _ stubKey "''no''",
      THEN conjunct2, THEN conjunct1, rule_format, OF h2]
    h2 show ?thesis by (simp add: k)
qed

text \<open>
  C5: a record of the grammar whose version is not the compiled-in one gives
  \<open>ErrInvalidArgon2Version\<close>, from the parse and so from \<open>Compare\<close>, whatever its
  time, memory and threads, its segments, the password and the primitive.
\<close>

theorem foreign_version:
  assumes "record_fields v t m p s h" and "decimal v \<noteq> Version"
  shows "newHashedFromHashedPassword (record_text v t m p s h) = Inl ErrInvalidArgon2Version
     \<and> Compare IDKey (record_text v t m p s h) password = Some ErrInvalidArgon2Version"
  using assms by (simp add: newHashed_record Compare_unparsed)

theorem foreign_version_witness:
  "record_fields ''99'' ''1'' ''65536'' ''4'' ''ab'' ''cd'' \<and> decimal ''99'' \<noteq> Version
   \<and> \<not> complexity_violated (decimal ''1'') (decimal ''65536'') (decimal ''4'')
   \<and> newHashedFromHashedPassword ''$argon2id99$1,65536,4$ab$cd'' = Inl ErrInvalidArgon2Version
   \<and> Compare stubKey ''$argon2id99$1,65536,4$ab$cd'' ''test4'' = Some ErrInvalidArgon2Version"
proof -
  have h1: "record_fields ''99'' ''1'' ''65536'' ''4'' ''ab'' ''cd''" by code_simp
  have h2: "decimal ''99'' \<noteq> Version" by code_simp
  have h3: "\<not> complexity_violated (decimal ''1'') (decimal ''65536'') (decimal ''4'')" by code_simp
  have r: "record_text ''99'' ''1'' ''65536'' ''4'' ''ab'' ''cd'' = ''$argon2id99$1,65536,4$ab$cd''"
    by (simp add: record_text_def)
  from foreign_version[OF h1 h2, of stubKey "''test4''"] h1 h2 h3 show ?thesis by (simp add: r)
qed

text \<open>
  C10, as amended: a record of the grammar whose version is the compiled-in one and
  whose salt or hash has a length congruent to 1 modulo 4 passes \<open>IsHashedPassword\<close>,
  and \<open>Compare\<close> gives a decode error for it, whatever the password: the error at the
  last character of the hash if the hash has such a length, and otherwise at the last
  character of the salt. So there are texts that pass \<open>IsHashedPassword\<close> and do not
  parse.
\<close>

theorem undecodable_record:
  assumes f: "record_fields v t m p s h" and v: "decimal v = Version"
    and l: "length s mod 4 = 1 \<or> length h mod 4 = 1"
  shows "IsHashedPassword (record_text v t m p s h)
     \<and> Compare IDKey (record_text v t m p s h) password =
         Some (CorruptInputError (if length h mod 4 = 1 then length h - 1 else length s - 1))"
proof -
  from f have cs: "list_all (\<lambda>c. c \<in> set alphabet) s" and ch: "list_all (\<lambda>c. c \<in> set alphabet) h"
    by (simp_all add: record_fields_def codec_string_def)
  have "newHashedFromHashedPassword (record_text v t m p s h) =
      Inl (CorruptInputError (if length h mod 4 = 1 then length h - 1 else length s - 1))"
  proof (cases "length h mod 4 = 1")
    case True
    with decode_alphabet_error[OF ch True, of 0] f v show ?thesis
      by (simp add: newHashed_record DecodeString_def)
  next
    case False
    with decode_alphabet_ok[OF ch, of 0] obtain b where "DecodeString h = Inr b"
      by (auto simp add: DecodeString_def)
    moreover from False l have "length s mod 4 = 1" by simp
    from decode_alphabet_error[OF cs this, of 0]
    have "DecodeString s = Inl (CorruptInputError (length s - 1))"
      by (simp add: DecodeString_def)
    ultimately show ?thesis using False f v by (simp add: newHashed_record)
  qed
  then have "Compare IDKey (record_text v t m p s h) password =
      Some (CorruptInputError (if length h mod 4 = 1 then length h - 1 else length s - 1))"
    by (rule Compare_unparsed)
  moreover from f have "IsHashedPassword (record_text v t m p s h)"
    by (simp add: IsHashedPassword_def MatchString_def FindStringSubmatch_record)
  ultimately show ?thesis by simp
qed

theorem undecodable_record_witness:
  "record_fields ''19'' ''1'' ''65536'' ''4'' ''a'' ''J2fO'' \<and> decimal ''19'' = Version
   \<and> IsHashedPassword ''$argon2id19$1,65536,4$a$J2fO''
   \<and> Compare stubKey ''$argon2id19$1,65536,4$a$J2fO'' ''test4'' = Some (CorruptInputError 0)"
proof -
  have h1: "record_fields ''19'' ''1'' ''65536'' ''4'' ''a'' ''J2fO''" by code_simp
  have h2: "decimal ''19'' = Version" by code_simp
  have r: "record_text ''19'' ''1'' ''65536'' ''4'' ''a'' ''J2fO'' = ''$argon2id19$1,65536,4$a$J2fO''"
    by (simp add: record_text_def)
  from undecodable_record[OF h1 h2, of stubKey "''test4''"] h1 h2 show ?thesis by (simp add: r)
qed

text \<open>
  The claim as stated, for any record of the grammar with such a segment, fails: in
  \<open>$argon2id99$1,1,1$a$ab\<close> the salt has length 1, and \<open>Compare\<close> gives
  \<open>ErrInvalidArgon2Version\<close>, not a decode error: the version is checked before the
  segments are decoded.
\<close>

theorem undecodable_record_counterexample:
  "record_text ''99'' ''1'' ''1'' ''1'' ''a'' ''ab'' = ''$argon2id99$1,1,1$a$ab''
   \<and> IsHashedPassword ''$argon2id99$1,1,1$a$ab'' \<and> length ''a'' mod 4 = 1
   \<and> Compare stubKey ''$argon2id99$1,1,1$a$ab'' ''test4'' = Some ErrInvalidArgon2Version
   \<and> DecodeString ''a'' = Inl (CorruptInputError 0)"
  by code_simp

subsection \<open>Failures that the tests of the repository expect\<close>

text \<open>
  \<open>TestFailure\<close> expects \<open>ErrInvalidHash\<close> for \<open>bad-hash\<close> and the decode error at
  position 0, that of the salt \<open>a\<close>, for a record whose hash is not canonical: the
  hash is decoded first, and without error.
\<close>

lemma repository_test_failures:
  "Compare stubKey ''bad-hash'' ''test4'' = Some ErrInvalidHash"
  "Compare stubKey ''$argon2id19$1,65536,4$a$J2fO7RdTPYGdoBb52cyYVEMdprPkAa/2hny3n0tGNm4'' ''test4''
     = Some (CorruptInputError 0)"
  "\<not> canonical ''J2fO7RdTPYGdoBb52cyYVEMdprPkAa/2hny3n0tGNm4''"
  by code_simp+

section \<open>Hashing\<close>

lemma HashPassword_record:
  "HashPassword IDKey Reader password t m p k =
     (let t' = (if t = 0 then 1 else t);
          m' = (if m = 0 then 65536 else m);
          p' = (if p = 0 then 4 else p);
          k' = (if k = 0 then 32 else k)
      in case Reader 16 of
           Inl err \<Rightarrow> Inl (ReadError err)
         | Inr salt' \<Rightarrow>
             Inr (record_text (Sprintf_d Version) (Sprintf_d (uint t')) (Sprintf_d (uint m'))
                    (Sprintf_d (uint p')) (EncodeToString salt')
                    (EncodeToString (IDKey (bytes_of_string password) salt' t' m' p' k'))))"
  by (simp add: HashPassword_def generateSalt_def saltLen_def Let_def record_text_def
      defaultTime_def defaultMemory_def defaultThreads_def defaultKeyLen_def
      split: sum.splits)

text \<open>
  C8: \<open>HashPassword\<close> replaces a zero time by 1, a zero memory by 65536, zero threads
  by 4 and a zero key length by 32, asks the randomness source for 16 bytes and returns
  its error if it fails, and otherwise returns the record made of the compiled-in
  version, the parameters after defaulting, the encoded salt and the encoded bytes that
  the primitive derives from the password, the salt and these parameters.
  \<open>DefaultHashPassword\<close> is \<open>HashPassword\<close> with four zeros.
\<close>

theorem HashPassword_result:
  "HashPassword IDKey Reader password t m p k =
     (let t' = (if t = 0 then 1 else t);
          m' = (if m = 0 then 65536 else m);
          p' = (if p = 0 then 4 else p);
          k' = (if k = 0 then 32 else k)
      in case Reader 16 of
           Inl err \<Rightarrow> Inl (ReadError err)
         | Inr salt' \<Rightarrow>
             Inr (''$argon2id'' @ Sprintf_d Version @ ''$'' @ Sprintf_d (uint t') @ '',''
                  @ Sprintf_d (uint m') @ '','' @ Sprintf_d (uint p') @ ''$''
                  @ EncodeToString salt' @ ''$''
                  @ EncodeToString (IDKey (bytes_of_string password) salt' t' m' p' k')))
   \<and> DefaultHashPassword IDKey Reader password = HashPassword IDKey Reader password 0 0 0 0"
  unfolding HashPassword_record record_text_def DefaultHashPassword_def
  by (rule conjI) (rule refl)+

theorem HashPassword_result_witness:
  "DefaultHashPassword stubKey stubReader ''test'' =
     Inr ''$argon2id19$1,65536,4$..CA.uOD/eaGAOmJB.yMBu$bETxb../.eKC/OWFA.iIAuuLBe6D/OSD/OSD/OSD/OS''
   \<and> HashPassword stubKey stubReader ''test2'' 2 32768 2 17 =
     Inr ''$argon2id19$2,32768,2$..CA.uOD/eaGAOmJB.yMBu$bETxbBG..OGB/.SE/ueHAeq''
   \<and> DefaultHashPassword stubKey emptyReader ''test'' = Inl (ReadError ErrUnexpectedEOF)"
proof -
  have e: "(let t' = (if (0 :: 32 word) = 0 then 1 else 0);
          m' = (if (0 :: 32 word) = 0 then 65536 else 0);
          p' = (if (0 :: 8 word) = 0 then 4 else 0);
          k' = (if (0 :: 32 word) = 0 then 32 else 0)
      in case stubReader 16 of
           Inl err \<Rightarrow> Inl (ReadError err)
         | Inr salt' \<Rightarrow>
             Inr (''$argon2id'' @ Sprintf_d Version @ ''$'' @ Sprintf_d (uint t') @ '',''
                  @ Sprintf_d (uint m') @ '','' @ Sprintf_d (uint p') @ ''$''
                  @ EncodeToString salt' @ ''$''
                  @ EncodeToString (stubKey (bytes_of_string ''test'') salt' t' m' p' k')))
    = Inr ''$argon2id19$1,65536,4$..CA.uOD/eaGAOmJB.yMBu$bETxb../.eKC/OWFA.iIAuuLBe6D/OSD/OSD/OSD/OS''"
    by code_simp
  have e2: "(let t' = (if (2 :: 32 word) = 0 then 1 else 2);
          m' = (if (32768 :: 32 word) = 0 then 65536 else 32768);
          p' = (if (2 :: 8 word) = 0 then 4 else 2);
          k' = (if (17 :: 32 word) = 0 then 32 else 17)
      in case stubReader 16 of
           Inl err \<Rightarrow> Inl (ReadError err)
         | Inr salt' \<Rightarrow>
             Inr (''$argon2id'' @ Sprintf_d Version @ ''$'' @ Sprintf_d (uint t') @ '',''
                  @ Sprintf_d (uint m') @ '','' @ Sprintf_d (uint p') @ ''$''
                  @ EncodeToString salt' @ ''$''
                  @ EncodeToString (stubKey (bytes_of_string ''test2'') salt' t' m' p' k')))
    = Inr ''$argon2id19$2,32768,2$..CA.uOD/eaGAOmJB.yMBu$bETxbBG..OGB/.SE/ueHAeq''"
    by code_simp
  show ?thesis
    using HashPassword_result[of stubKey stubReader "''test''" 0 0 0 0]
      HashPassword_result[of stubKey stubReader "''test2''" 2 32768 2 17]
      HashPassword_result[of stubKey emptyReader "''test''" 0 0 0 0]
    unfolding e e2 by (simp add: emptyReader_def)
qed

lemma length_alphabet: "length alphabet = 64"
  by (simp add: alphabet_def)

lemma encode_tab_alphabet: "encode_tab (take_bit 6 x) \<in> set alphabet"
  unfolding encode_tab_def using sextet_lt[of x] by (intro nth_mem) (simp add: length_alphabet)

lemma Encode_alphabet: "list_all (\<lambda>c. c \<in> set alphabet) (Encode b)"
proof (induction b rule: Encode.induct)
  case 1
  show ?case by simp
next
  case (2 a)
  show ?case unfolding Encode_1 by (simp add: encode_tab_alphabet)
next
  case (3 a b)
  show ?case unfolding Encode_2 by (simp add: encode_tab_alphabet)
next
  case (4 a b c rest)
  then show ?case unfolding Encode_3 by (simp add: encode_tab_alphabet)
qed

lemma Encode_nonempty: "b \<noteq> [] \<Longrightarrow> Encode b \<noteq> []"
  by (induction b rule: Encode.induct) (simp_all add: Let_def)

lemma codec_string_Encode: "b \<noteq> [] \<Longrightarrow> codec_string (EncodeToString b)"
  by (simp add: codec_string_def EncodeToString_def Encode_alphabet Encode_nonempty)

lemma uint32_decimal:
  fixes w :: "32 word"
  shows "digit_string 10 (Sprintf_d (uint w))" and "decimal (Sprintf_d (uint w)) = uint w"
proof -
  have "uint w < 2 ^ 32" using uint_lt2p[of w] by simp
  then have "uint w < 10 ^ 10" by simp
  then show "digit_string 10 (Sprintf_d (uint w))" and "decimal (Sprintf_d (uint w)) = uint w"
    using Sprintf_d_digit_string[of "uint w" 10] by simp_all
qed

lemma uint8_decimal:
  fixes w :: "8 word"
  shows "digit_string 3 (Sprintf_d (uint w))" and "decimal (Sprintf_d (uint w)) = uint w"
proof -
  have "uint w < 2 ^ 8" using uint_lt2p[of w] by simp
  then have "uint w < 10 ^ 3" by simp
  then show "digit_string 3 (Sprintf_d (uint w))" and "decimal (Sprintf_d (uint w)) = uint w"
    using Sprintf_d_digit_string[of "uint w" 3] by simp_all
qed

lemma Version_decimal: "digit_string 4 (Sprintf_d Version)" "decimal (Sprintf_d Version) = Version"
  using Sprintf_d_digit_string[of 19 4] by (simp_all add: Version_def)

lemma complexity_of_words:
  fixes t m :: "32 word" and p :: "8 word"
  assumes "t \<noteq> 0" and "p \<noteq> 0"
  shows "\<not> complexity_violated (uint t) (uint m) (uint p)"
proof -
  have "uint t < 2 ^ 32" "uint m < 2 ^ 32" "uint p < 2 ^ 8"
    using uint_lt2p[of t] uint_lt2p[of m] uint_lt2p[of p] by simp_all
  moreover from assms have "uint t \<noteq> 0" "uint p \<noteq> 0" by (simp_all add: uint_0_iff)
  ultimately show ?thesis by (simp add: complexity_violated_def)
qed

text \<open>
  C1: if the randomness source supplies a 16-byte salt, \<open>HashPassword\<close> returns a text
  that \<open>Compare\<close> accepts for the same password, for every password and all cost
  parameters. The primitive is a function, so deterministic; as its interface says, it
  returns as many bytes as the key length asks for.
\<close>

theorem hash_then_compare:
  assumes len: "\<And>pw s t m p k. length (IDKey pw s t m p k) = unat k"
    and rd: "Reader saltLen = Inr salt'" and sl: "length salt' = saltLen"
  shows "\<exists>text. HashPassword IDKey Reader password t m p k = Inr text
           \<and> Compare IDKey text password = None"
proof -
  define t' where "t' = (if t = 0 then 1 else t)"
  define m' where "m' = (if m = 0 then 65536 else m)"
  define p' where "p' = (if p = 0 then 4 else p)"
  define k' where "k' = (if k = 0 then 32 else k)"
  define derived where "derived = IDKey (bytes_of_string password) salt' t' m' p' k'"
  define out where "out = record_text (Sprintf_d Version) (Sprintf_d (uint t'))
     (Sprintf_d (uint m')) (Sprintf_d (uint p')) (EncodeToString salt') (EncodeToString derived)"
  have nz: "t' \<noteq> 0" "p' \<noteq> 0" "k' \<noteq> 0" by (simp_all add: t'_def p'_def k'_def)
  have dl: "length derived = unat k'" by (simp add: derived_def len)
  with nz have "derived \<noteq> []" by (auto simp add: unat_eq_0)
  moreover from sl have "salt' \<noteq> []" by (auto simp add: saltLen_def)
  ultimately have fields: "record_fields (Sprintf_d Version) (Sprintf_d (uint t'))
     (Sprintf_d (uint m')) (Sprintf_d (uint p')) (EncodeToString salt') (EncodeToString derived)"
    by (simp add: record_fields_def Version_decimal uint32_decimal uint8_decimal codec_string_Encode)
  have hashed: "HashPassword IDKey Reader password t m p k = Inr out"
    using rd by (simp add: HashPassword_record saltLen_def out_def derived_def
        t'_def m'_def p'_def k'_def Let_def)
  have "newHashedFromHashedPassword out =
      Inr \<lparr>time = t', memory = m', threads = p', hash = derived, salt = salt'\<rparr>"
    unfolding out_def newHashed_record[OF fields]
    by (simp add: Version_decimal uint32_decimal uint8_decimal complexity_of_words nz
        EncodeToString_def DecodeString_def decode_Encode)
  then have "Compare IDKey out password = None"
    by (simp add: Compare_parsed dl derived_def[symmetric])
  with hashed show ?thesis by blast
qed

lemma stubKey_length: "length (stubKey pw s t m p k) = unat k"
  by (simp add: stubKey_def)

theorem hash_then_compare_witness:
  "stubReader saltLen = Inr [0, 1, 2, 3, 4, 5, 6, 7, 8, 9, 10, 11, 12, 13, 14, 15]
   \<and> length [0 :: byte, 1, 2, 3, 4, 5, 6, 7, 8, 9, 10, 11, 12, 13, 14, 15] = saltLen
   \<and> HashPassword stubKey stubReader ''test2'' 2 32768 2 17 =
       Inr ''$argon2id19$2,32768,2$..CA.uOD/eaGAOmJB.yMBu$bETxbBG..OGB/.SE/ueHAeq''
   \<and> Compare stubKey ''$argon2id19$2,32768,2$..CA.uOD/eaGAOmJB.yMBu$bETxbBG..OGB/.SE/ueHAeq'' ''test2''
       = None"
proof -
  have rd: "stubReader saltLen = Inr [0, 1, 2, 3, 4, 5, 6, 7, 8, 9, 10, 11, 12, 13, 14, 15]"
    by code_simp
  have sl: "length [0 :: byte, 1, 2, 3, 4, 5, 6, 7, 8, 9, 10, 11, 12, 13, 14, 15] = saltLen"
    by (simp add: saltLen_def)
  have h: "HashPassword stubKey stubReader ''test2'' 2 32768 2 17 =
       Inr ''$argon2id19$2,32768,2$..CA.uOD/eaGAOmJB.yMBu$bETxbBG..OGB/.SE/ueHAeq''"
    by code_simp
  from hash_then_compare[of stubKey stubReader _ "''test2''" 2 32768 2 17, OF stubKey_length rd sl]
  obtain out where "HashPassword stubKey stubReader ''test2'' 2 32768 2 17 = Inr out"
    and "Compare stubKey out ''test2'' = None" by blast
  with h rd sl show ?thesis by simp
qed

end
